theory Spec2Isabelle
  imports Complex_Main "HOL-Library.Word"
begin

unbundle bit_operations_syntax

section \<open>Numeric codec (util.py)\<close>

text \<open>
  Python numbers: unbounded integers are \<open>int\<close>; a byte string is a list of 8-bit words.
  Every exception that the modelled code can raise is a value of \<open>py_error\<close>.
\<close>

type_synonym byte = "8 word"

datatype py_error =
    OverflowError
  | ValueError
  | IndexError
  | ZeroDivisionError
  | AttributeError
  | AssertionError
  | TypeError
  | UnknownGXCommand nat nat

text \<open>
  A Python \<open>float\<close> is an IEEE 754 double.  \<open>Finite m e\<close> is the number \<open>m * 2^e\<close>
  (zeros are not signed: no modelled result depends on the sign of a zero).  The doubles are
  the values \<open>Finite m e\<close> with \<open>\<bar>m\<bar> < 2^53\<close>, \<open>-1074 \<le> e\<close> and \<open>\<bar>m\<bar> * 2^e < 2^1024\<close>,
  the two infinities (\<open>Infinity True\<close> is the negative one) and \<open>NaN\<close>.
\<close>

datatype float64 = Finite int int | Infinity bool | NaN

definition fval :: "float64 \<Rightarrow> real" where
  "fval x = (case x of Finite m e \<Rightarrow> real_of_int m * 2 powi e | _ \<Rightarrow> 0)"

text \<open>\<open>n.bit_length()\<close> for \<open>n \<ge> 0\<close>.\<close>

fun bit_length :: "int \<Rightarrow> nat" where
  "bit_length n = (if n \<le> 0 then 0 else Suc (bit_length (n div 2)))"

declare bit_length.simps [simp del]

definition is_double :: "float64 \<Rightarrow> bool" where
  "is_double x =
     (case x of
        Finite m e \<Rightarrow> \<bar>m\<bar> < 2 ^ 53 \<and> - 1074 \<le> e \<and> int (bit_length \<bar>m\<bar>) + e \<le> 1024
      | _ \<Rightarrow> True)"

text \<open>
  Rounding the exact number \<open>M * 2^a\<close> to a double, to nearest and ties to even: at most 53
  significant bits are kept and no bit below \<open>2^-1074\<close>; a result of magnitude \<open>2^1024\<close> or
  more is an infinity.
\<close>

definition overflow_check :: "int \<Rightarrow> int \<Rightarrow> float64" where
  "overflow_check m e =
     (if m = 0 then Finite 0 0
      else if int (bit_length \<bar>m\<bar>) + e > 1024 then Infinity (m < 0)
      else Finite m e)"

definition round_float :: "int \<Rightarrow> int \<Rightarrow> float64" where
  "round_float M a =
     (let k = max (int (bit_length \<bar>M\<bar>) - 53) (- 1074 - a)
      in if k \<le> 0 then overflow_check M a
         else
           (let q = M div 2 ^ nat k; r = M mod 2 ^ nat k;
                q' = (if 2 * r > 2 ^ nat k \<or> (2 * r = 2 ^ nat k \<and> odd q) then q + 1 else q)
            in overflow_check q' (a + k)))"

text \<open>Sum and product of doubles: the exact result, rounded.\<close>

fun float_add :: "float64 \<Rightarrow> float64 \<Rightarrow> float64" where
  "float_add (Finite m1 e1) (Finite m2 e2) =
     (let a = min e1 e2
      in round_float (m1 * 2 ^ nat (e1 - a) + m2 * 2 ^ nat (e2 - a)) a)"
| "float_add NaN y = NaN"
| "float_add x NaN = NaN"
| "float_add (Infinity s) (Infinity t) = (if s = t then Infinity s else NaN)"
| "float_add (Infinity s) (Finite m e) = Infinity s"
| "float_add (Finite m e) (Infinity t) = Infinity t"

fun float_mul :: "float64 \<Rightarrow> float64 \<Rightarrow> float64" where
  "float_mul (Finite m1 e1) (Finite m2 e2) = round_float (m1 * m2) (e1 + e2)"
| "float_mul NaN y = NaN"
| "float_mul x NaN = NaN"
| "float_mul (Infinity s) (Infinity t) = Infinity (s \<noteq> t)"
| "float_mul (Infinity s) (Finite m e) = (if m = 0 then NaN else Infinity (s \<noteq> (m < 0)))"
| "float_mul (Finite m e) (Infinity t) = (if m = 0 then NaN else Infinity (t \<noteq> (m < 0)))"

text \<open>The conversion of an integer operand to a float; \<open>OverflowError\<close> when it is too
  large.\<close>

definition float_of_int :: "int \<Rightarrow> py_error + float64" where
  "float_of_int n =
     (case round_float n 0 of Infinity s \<Rightarrow> Inl OverflowError | f \<Rightarrow> Inr f)"

text \<open>\<open>x // 1\<close> on a float: the floor, as a float; \<open>nan\<close> for the infinities and \<open>nan\<close>.\<close>

definition float_floordiv_1 :: "float64 \<Rightarrow> float64" where
  "float_floordiv_1 x =
     (case x of
        Finite m e \<Rightarrow> Finite (if 0 \<le> e then m * 2 ^ nat e else m div 2 ^ nat (- e)) 0
      | _ \<Rightarrow> NaN)"

text \<open>\<open>int(x)\<close> on a float truncates towards zero; it raises for the infinities and \<open>nan\<close>.\<close>

definition py_int :: "float64 \<Rightarrow> py_error + int" where
  "py_int x =
     (case x of
        Finite m e \<Rightarrow>
          Inr (if 0 \<le> e then m * 2 ^ nat e
               else if 0 \<le> m then m div 2 ^ nat (- e) else - ((- m) div 2 ^ nat (- e)))
      | Infinity s \<Rightarrow> Inl OverflowError
      | NaN \<Rightarrow> Inl ValueError)"

text \<open>A number is an integer or a float.  \<open>add_half num\<close> is \<open>num + 0.5\<close> and
  \<open>py_mul_int num k\<close> is \<open>num * k\<close> for an integer \<open>k\<close>.\<close>

datatype py_number = PyInt int | PyFloat float64

definition add_half :: "py_number \<Rightarrow> py_error + float64" where
  "add_half num =
     (case num of
        PyFloat f \<Rightarrow> Inr (float_add f (Finite 1 (- 1)))
      | PyInt n \<Rightarrow>
         (case float_of_int n of Inl e \<Rightarrow> Inl e | Inr f \<Rightarrow> Inr (float_add f (Finite 1 (- 1)))))"

definition py_mul_int :: "py_number \<Rightarrow> int \<Rightarrow> py_error + py_number" where
  "py_mul_int num k =
     (case num of
        PyInt n \<Rightarrow> Inr (PyInt (n * k))
      | PyFloat f \<Rightarrow>
         (case float_of_int k of Inl e \<Rightarrow> Inl e | Inr g \<Rightarrow> Inr (PyFloat (float_mul f g))))"

definition int_round_mid_up :: "py_number \<Rightarrow> py_error + int" where
  "int_round_mid_up num =
     (case add_half num of Inl e \<Rightarrow> Inl e | Inr s \<Rightarrow> py_int (float_floordiv_1 s))"

definition fix_to_int :: "py_number \<Rightarrow> nat \<Rightarrow> py_error + int" where
  "fix_to_int number bit_precision =
     (case py_mul_int number (push_bit bit_precision 1) of
        Inl e \<Rightarrow> Inl e
      | Inr v \<Rightarrow> int_round_mid_up v)"

text \<open>Banker's rounding (round half to even), the rule of Python's built-in \<open>round\<close>,
  for comparison only.\<close>

definition bankers_round :: "real \<Rightarrow> int" where
  "bankers_round x =
     (if x - real_of_int \<lfloor>x\<rfloor> < 1 / 2 then \<lfloor>x\<rfloor>
      else if x - real_of_int \<lfloor>x\<rfloor> > 1 / 2 then \<lfloor>x\<rfloor> + 1
      else if even \<lfloor>x\<rfloor> then \<lfloor>x\<rfloor> else \<lfloor>x\<rfloor> + 1)"

text \<open>Slices \<open>xs[a : b]\<close> for non-negative bounds: out-of-range bounds are clamped.\<close>

definition slice :: "'a list \<Rightarrow> nat \<Rightarrow> nat \<Rightarrow> 'a list" where
  "slice xs a b = drop a (take b xs)"

definition get_n_bytes :: "byte list \<Rightarrow> nat \<Rightarrow> nat \<Rightarrow> byte list" where
  "get_n_bytes bytestr offset len = slice bytestr offset (offset + len)"

text \<open>\<open>int.from_bytes(bs, byteorder="little", signed=False)\<close>.\<close>

fun uint_of_bytes :: "byte list \<Rightarrow> int" where
  "uint_of_bytes [] = 0"
| "uint_of_bytes (b # bs) = uint b + 256 * uint_of_bytes bs"

definition to_uint :: "byte list \<Rightarrow> nat \<Rightarrow> nat \<Rightarrow> int" where
  "to_uint bytestr offset num_bytes = uint_of_bytes (slice bytestr offset (offset + num_bytes))"

definition sign_int10 :: "int \<Rightarrow> int" where
  "sign_int10 integer = (if integer \<ge> 0x200 then integer - 0x400 else integer)"

definition to_vec30 :: "byte list \<Rightarrow> nat \<Rightarrow> int list" where
  "to_vec30 bytestr offset =
     (let vec = to_uint bytestr offset 4
      in [sign_int10 (vec AND 0x3ff),
          sign_int10 (drop_bit 10 vec AND 0x3ff),
          sign_int10 (drop_bit 20 vec AND 0x3ff)])"

text \<open>\<open>integer.to_bytes(num_bytes, byteorder="little", signed=False)\<close>: the little-endian
  digits; \<open>OverflowError\<close> when the integer is negative or does not fit.\<close>

fun bytes_of_uint :: "nat \<Rightarrow> int \<Rightarrow> byte list" where
  "bytes_of_uint 0 n = []"
| "bytes_of_uint (Suc k) n = word_of_int n # bytes_of_uint k (n div 256)"

definition from_uint :: "int \<Rightarrow> nat \<Rightarrow> py_error + byte list" where
  "from_uint integer num_bytes =
     (if integer < 0 \<or> integer \<ge> 256 ^ num_bytes then Inl OverflowError
      else Inr (bytes_of_uint num_bytes integer))"

text \<open>\<open>from_vecb\<close>: the sum over \<open>enumerate(vec)\<close>, with the running index \<open>i\<close>; the
  first element that raises ends it.\<close>

fun from_vecb_sum :: "py_number list \<Rightarrow> nat \<Rightarrow> nat \<Rightarrow> nat \<Rightarrow> py_error + int" where
  "from_vecb_sum [] bits_per_elem bit_precision i = Inr 0"
| "from_vecb_sum (v # vs) bits_per_elem bit_precision i =
     (case py_mul_int v (push_bit bit_precision 1) of
        Inl e \<Rightarrow> Inl e
      | Inr w \<Rightarrow>
         (case int_round_mid_up w of
            Inl e \<Rightarrow> Inl e
          | Inr r \<Rightarrow>
             (case from_vecb_sum vs bits_per_elem bit_precision (Suc i) of
                Inl e \<Rightarrow> Inl e
              | Inr num \<Rightarrow>
                  Inr (push_bit (bits_per_elem * i) (r mod push_bit bits_per_elem 1) + num))))"

definition from_vecb :: "py_number list \<Rightarrow> nat \<Rightarrow> nat \<Rightarrow> nat \<Rightarrow> py_error + byte list" where
  "from_vecb vec bits_per_elem bit_precision num_bytes =
     (case from_vecb_sum vec bits_per_elem bit_precision 0 of
        Inl e \<Rightarrow> Inl e
      | Inr num \<Rightarrow> from_uint num num_bytes)"

section \<open>Texture classification (util.py, class Texture)\<close>

text \<open>A decoded pixel is the tuple \<open>(r, g, b, a)\<close> of \<open>self.rgba5555\<close>; \<open>c[0:3]\<close> is
  \<open>rgb c\<close> and \<open>c[3]\<close> is \<open>alpha c\<close>.\<close>

type_synonym pixel = "int \<times> int \<times> int \<times> int"

definition rgb :: "pixel \<Rightarrow> int \<times> int \<times> int" where
  "rgb c = (case c of (r, g, b, a) \<Rightarrow> (r, g, b))"

definition alpha :: "pixel \<Rightarrow> int" where
  "alpha c = (case c of (r, g, b, a) \<Rightarrow> a)"

datatype tex_type = A3I5 | COLOR_4 | COLOR_16 | COLOR_256 | COMPRESSED | A5I3 | COLOR_DIRECT

text \<open>\<open>Texture.calc_type\<close>, on the pixels that \<open>calc_rgba5555\<close> has stored and the
  truth value of \<open>self.texture.get("Uncompressed")\<close>; the result is
  \<open>(self.type, self.transparent_color)\<close>.\<close>

definition calc_type :: "pixel list \<Rightarrow> bool \<Rightarrow> tex_type \<times> bool" where
  "calc_type rgba5555 uncompressed =
     (let num_colors = card (set (map rgb (filter (\<lambda>c. alpha c \<noteq> 0) rgba5555)))
      in if list_ex (\<lambda>c. alpha c \<noteq> 0 \<and> alpha c \<noteq> 31) rgba5555
         then (if num_colors > 8 then A3I5 else A5I3, False)
         else
           (let transparent_color = list_ex (\<lambda>c. alpha c = 0) rgba5555;
                num_colors = (if transparent_color then num_colors + 1 else num_colors)
            in (if num_colors \<le> 4 then COLOR_4
                else if \<not> uncompressed then COMPRESSED
                else if num_colors \<le> 16 then COLOR_16
                else if num_colors \<le> 256 then COLOR_256
                else COLOR_DIRECT,
                transparent_color)))"

text \<open>The counts that the specification speaks of: the distinct colours of the fully opaque
  pixels (alpha 31), and the same count plus one virtual transparent colour when some pixel is
  fully transparent.\<close>

definition spec_opaque_colors :: "pixel list \<Rightarrow> nat" where
  "spec_opaque_colors img = card {rgb c |c. c \<in> set img \<and> alpha c = 31}"

text \<open>What \<open>calc_type\<close> counts instead: the distinct colours of all pixels that are not fully
  transparent, translucent ones included.\<close>

definition nontransparent_colors :: "pixel list \<Rightarrow> nat" where
  "nontransparent_colors img = card {rgb c |c. c \<in> set img \<and> alpha c \<noteq> 0}"

definition spec_color_count :: "pixel list \<Rightarrow> nat" where
  "spec_color_count img =
     spec_opaque_colors img + (if \<exists>c \<in> set img. alpha c = 0 then 1 else 0)"

text \<open>The classification of the specification for images without partial alpha and with
  more than four colours: uncompressed when the flag is set or the count exceeds 256.\<close>

definition spec_many_colors_type :: "nat \<Rightarrow> bool \<Rightarrow> tex_type" where
  "spec_many_colors_type n uncompressed =
     (if uncompressed \<or> n > 256
      then (if n \<le> 16 then COLOR_16 else if n \<le> 256 then COLOR_256 else COLOR_DIRECT)
      else COMPRESSED)"

section \<open>Faces (util.py, class Face)\<close>

text \<open>
  A vertex is a value compared by \<open>__eq__\<close>, that is by its fields: any HOL type \<open>'v\<close> with
  its equality.  A face is an object: \<open>fid\<close> is its identity (what \<open>is\<close> compares) and
  \<open>vertices\<close> its list of vertices.
\<close>

record 'v face =
  fid :: nat
  vertices :: "'v list"

text \<open>\<open>vs.index(x)\<close> for an element of the list: the position of its first occurrence.\<close>

fun index :: "'a list \<Rightarrow> 'a \<Rightarrow> nat" where
  "index [] x = 0"
| "index (y # ys) x = (if y = x then 0 else Suc (index ys x))"

definition offset_in :: "'v list \<Rightarrow> 'v \<Rightarrow> 'v \<Rightarrow> int" where
  "offset_in vs a b = (int (index vs a) - int (index vs b)) mod int (length vs)"

text \<open>
  \<open>Face.can_connect_to\<close>.  The list \<open>shared\<close> is \<open>list(set(self.vertices) & set(other.vertices))\<close>;
  the order in which Python enumerates that set is not fixed by the language, so the body is
  modelled for any enumeration \<open>shared\<close> (\<open>can_connect_with\<close>), and \<open>can_connect_to\<close> takes the
  order of first occurrence in \<open>self.vertices\<close>.  \<open>offset_in vs a b\<close> is one entry of \<open>diffs\<close>.
\<close>

definition can_connect_with :: "'v list \<Rightarrow> 'v face \<Rightarrow> 'v face \<Rightarrow> bool" where
  "can_connect_with shared self other =
     (if fid self = fid other \<or> length (vertices self) \<noteq> length (vertices other) then False
      else if length shared < 2 then False
      else
        (let diffs = map (\<lambda>vs. offset_in vs (shared ! 0) (shared ! 1))
                       [vertices self, vertices other]
         in (length (vertices self) = 3 \<or> 2 \<notin> set diffs) \<and> diffs ! 0 \<noteq> diffs ! 1))"

definition shared_vertices :: "'v face \<Rightarrow> 'v face \<Rightarrow> 'v list" where
  "shared_vertices self other =
     remdups (filter (\<lambda>v. v \<in> set (vertices other)) (vertices self))"

definition can_connect_to :: "'v face \<Rightarrow> 'v face \<Rightarrow> bool" where
  "can_connect_to self other = can_connect_with (shared_vertices self other) self other"

text \<open>Two vertices of a face are edge-adjacent when their positions are cyclic neighbours.\<close>

definition edge_adjacent :: "'v list \<Rightarrow> 'v \<Rightarrow> 'v \<Rightarrow> bool" where
  "edge_adjacent vs a b =
     ((index vs a + 1) mod length vs = index vs b \<or> (index vs b + 1) mod length vs = index vs a)"

text \<open>Mergeability in the words of the specification: distinct faces of the same arity that share
  at least two vertices, where (the arity is 3, or the shared pair is not edge-adjacent in both
  faces in the same rotational sense) and the index offsets of the shared pair differ.\<close>

definition spec_can_connect :: "'v list \<Rightarrow> 'v face \<Rightarrow> 'v face \<Rightarrow> bool" where
  "spec_can_connect shared self other =
     (fid self \<noteq> fid other \<and> length (vertices self) = length (vertices other)
      \<and> 2 \<le> length shared
      \<and> (length (vertices self) = 3
          \<or> \<not> (edge_adjacent (vertices self) (shared ! 0) (shared ! 1)
                \<and> edge_adjacent (vertices other) (shared ! 0) (shared ! 1)
                \<and> offset_in (vertices self) (shared ! 0) (shared ! 1)
                    = offset_in (vertices other) (shared ! 0) (shared ! 1)))
      \<and> offset_in (vertices self) (shared ! 0) (shared ! 1)
          \<noteq> offset_in (vertices other) (shared ! 0) (shared ! 1))"

section \<open>Byte-buffer assembler (util.py, class BytesWithPtrs)\<close>

text \<open>
  An \<open>AlignedBytes\<close> object has an identity \<open>oid\<close> (\<open>list.index\<close> compares objects that define
  no \<open>__eq__\<close> by identity), its bytes and its alignment.  A \<open>BytesPtr\<close> refers to its source and
  destination objects by their identities.
\<close>

record aligned_bytes =
  oid :: nat
  bytestr :: "byte list"
  byte_align :: int

record bytes_ptr =
  src_bytestr :: nat
  src_offset :: int
  dest_bytestr :: nat
  dest_offset :: int
  num_bytes :: int

text \<open>\<open>self.bytestrs.index(obj)\<close>: the first position of the object, or \<open>ValueError\<close>.\<close>

fun index_of_obj :: "aligned_bytes list \<Rightarrow> nat \<Rightarrow> py_error + nat" where
  "index_of_obj [] r = Inl ValueError"
| "index_of_obj (b # bs) r =
     (if oid b = r then Inr 0
      else case index_of_obj bs r of Inl e \<Rightarrow> Inl e | Inr i \<Rightarrow> Inr (Suc i))"

type_synonym indexed_ptr = "nat \<times> int \<times> nat \<times> int \<times> int"

fun indexed_ptrs :: "aligned_bytes list \<Rightarrow> bytes_ptr list \<Rightarrow> py_error + indexed_ptr list" where
  "indexed_ptrs bytestrs [] = Inr []"
| "indexed_ptrs bytestrs (ptr # ptrs) =
     (case index_of_obj bytestrs (src_bytestr ptr) of
        Inl e \<Rightarrow> Inl e
      | Inr si \<Rightarrow>
         (case index_of_obj bytestrs (dest_bytestr ptr) of
            Inl e \<Rightarrow> Inl e
          | Inr di \<Rightarrow>
             (case indexed_ptrs bytestrs ptrs of
                Inl e \<Rightarrow> Inl e
              | Inr ips \<Rightarrow>
                  Inr ((si, src_offset ptr, di, dest_offset ptr, num_bytes ptr) # ips))))"

text \<open>
  The placement loop of \<open>assemble\<close>, from the running \<open>position\<close>: each segment is padded
  with \<open>(byte_align - position - len) % byte_align\<close> zero bytes, where \<open>byte_align\<close> is the
  alignment of the following segment, or 4 after the last one; \<open>%\<close> by zero raises.  The
  result is \<open>placed_bytestrs\<close>.
\<close>

fun place :: "aligned_bytes list \<Rightarrow> int \<Rightarrow> py_error + (byte list \<times> int) list" where
  "place [] position = Inr []"
| "place (b # rest) position =
     (let align = (case rest of [] \<Rightarrow> 4 | nxt # _ \<Rightarrow> byte_align nxt)
      in if align = 0 then Inl ZeroDivisionError
         else
           (let padded = bytestr b
                  @ replicate (nat ((align - position - int (length (bytestr b))) mod align)) 0
            in case place rest (position + int (length padded)) of
                 Inl e \<Rightarrow> Inl e
               | Inr placed \<Rightarrow> Inr ((padded, position) # placed)))"

text \<open>Python's slice assignment \<open>xs[a:b] = new\<close> on a bytearray: negative bounds count from
  the end, bounds are clamped to the length, and an upper bound below the lower one is
  raised to it.\<close>

definition slice_bound :: "int \<Rightarrow> nat \<Rightarrow> nat" where
  "slice_bound i n = (if i < 0 then nat (max (i + int n) 0) else min (nat i) n)"

definition set_slice :: "'a list \<Rightarrow> int \<Rightarrow> int \<Rightarrow> 'a list \<Rightarrow> 'a list" where
  "set_slice xs a b new =
     (let lo = slice_bound a (length xs); hi = max lo (slice_bound b (length xs))
      in take lo xs @ new @ drop hi xs)"

text \<open>The pointer loop of \<open>assemble\<close>: each pointer overwrites a slice of its placed source
  segment with \<open>from_uint(position of the destination + dest_offset, num_bytes)\<close>.\<close>

fun resolve_ptrs :: "indexed_ptr list \<Rightarrow> (byte list \<times> int) list \<Rightarrow> py_error + (byte list \<times> int) list" where
  "resolve_ptrs [] placed = Inr placed"
| "resolve_ptrs ((src_index, src_off, dest_index, dest_off, n_bytes) # ptrs) placed =
     (if n_bytes < 0 then Inl ValueError
      else case from_uint (snd (placed ! dest_index) + dest_off) (nat n_bytes) of
             Inl e \<Rightarrow> Inl e
           | Inr field \<Rightarrow>
               resolve_ptrs ptrs
                 (placed[src_index :=
                    (set_slice (fst (placed ! src_index)) src_off (src_off + n_bytes) field,
                     snd (placed ! src_index))]))"

definition assemble :: "aligned_bytes list \<Rightarrow> bytes_ptr list \<Rightarrow> py_error + byte list" where
  "assemble bytestrs ptrs =
     (case indexed_ptrs bytestrs ptrs of
        Inl e \<Rightarrow> Inl e
      | Inr ips \<Rightarrow>
         (case place bytestrs 0 of
            Inl e \<Rightarrow> Inl e
          | Inr placed \<Rightarrow>
             (case resolve_ptrs ips placed of
                Inl e \<Rightarrow> Inl e
              | Inr final \<Rightarrow> Inr (concat (map fst final)))))"

text \<open>The placed positions of the segments (the second components of \<open>placed_bytestrs\<close>).\<close>

definition positions :: "aligned_bytes list \<Rightarrow> int list" where
  "positions bytestrs = (case place bytestrs 0 of Inl e \<Rightarrow> [] | Inr placed \<Rightarrow> map snd placed)"

section \<open>Display lists (import\_bmd.py)\<close>

text \<open>
  The interpreter of the display-list command stream.  Vectors are lists of reals, colours
  are values of a type \<open>'c\<close>.  The decoding helpers that import\_bmd.py takes from util but that
  are not part of the sources (\<open>to_uint_list\<close>, \<open>to_vec\<close>, \<open>to_vecb\<close>, \<open>to_fix\<close>,
  \<open>uint16_to_color\<close>) are parameters, collected in a record \<open>codec\<close>; \<open>to_uint_list\<close> yields
  unsigned values.  The file's bytes are \<open>bmd_bytes\<close> (\<open>bytestr\<close> in the source).
\<close>

record 'c dl_vertex =
  v_position :: "real list option"
  v_normal :: "real list option"
  v_uv :: "real list option"
  v_color :: "'c option"
  v_group :: "int option"

record 'c dl_face =
  f_vertices :: "'c dl_vertex list"
  f_material :: int

record 'c codec =
  to_uint_list :: "byte list \<Rightarrow> nat \<Rightarrow> nat \<Rightarrow> nat \<Rightarrow> nat list"
  to_vec :: "byte list \<Rightarrow> nat \<Rightarrow> nat \<Rightarrow> nat \<Rightarrow> nat \<Rightarrow> real list"
  to_vecb :: "byte list \<Rightarrow> nat \<Rightarrow> nat \<Rightarrow> nat \<Rightarrow> nat \<Rightarrow> real list"
  to_fix :: "byte list \<Rightarrow> nat \<Rightarrow> nat \<Rightarrow> nat \<Rightarrow> real"
  uint16_to_color :: "int \<Rightarrow> real \<Rightarrow> 'c"

text \<open>The local variables of \<open>import_display_list\<close>.  \<open>vertices\<close> and \<open>faces\<close> are assigned
  together, so they are one optional pair \<open>vertices_faces\<close>.\<close>

record 'c dl_state =
  p_type :: "int option"
  vertices_faces :: "('c dl_vertex list \<times> 'c dl_face list) option"
  offset :: nat
  tex_coords :: "real list option"
  normal :: "real list option"
  color :: "'c option"
  position :: "real list option"
  group_id :: "int option"
  accum_vertices :: "'c dl_vertex list"
  accum_faces :: "'c dl_face list"

text \<open>Assigning components of a \<open>Vector\<close> (\<open>AttributeError\<close> for a component it does not
  have) and adding vectors (\<open>ValueError\<close> for different sizes).\<close>

definition set_component :: "nat \<Rightarrow> real \<Rightarrow> real list \<Rightarrow> py_error + real list" where
  "set_component i x v = (if i < length v then Inr (v[i := x]) else Inl AttributeError)"

definition set_two :: "nat \<Rightarrow> real \<Rightarrow> nat \<Rightarrow> real \<Rightarrow> real list \<Rightarrow> py_error + real list" where
  "set_two i x j y v =
     (case set_component i x v of Inl e \<Rightarrow> Inl e | Inr v' \<Rightarrow> set_component j y v')"

definition vec_add :: "real list \<Rightarrow> real list \<Rightarrow> py_error + real list" where
  "vec_add v w = (if length v = length w then Inr (map2 (+) v w) else Inl ValueError)"

text \<open>\<open>read_vertex\<close>: the new position, the faces that the new vertex completes, and the
  updated state.  \<open>from_end vs k\<close> is \<open>vs[-k]\<close>.\<close>

definition new_position :: "'c codec \<Rightarrow> nat \<Rightarrow> byte list \<Rightarrow> nat \<Rightarrow> real list option
    \<Rightarrow> py_error + real list" where
  "new_position C cmd data_bytes off pos =
     (if cmd = 0x23 then Inr (to_vec C data_bytes off 2 3 12)
      else if cmd = 0x24 then Inr (to_vecb C data_bytes off 10 3 6)
      else case pos of
        None \<Rightarrow> Inl AttributeError
      | Some p \<Rightarrow>
         (if cmd = 0x25
          then set_two 0 (to_fix C data_bytes (off + 0) 2 12) 1 (to_fix C data_bytes (off + 2) 2 12) p
          else if cmd = 0x26
          then set_two 0 (to_fix C data_bytes (off + 0) 2 12) 2 (to_fix C data_bytes (off + 2) 2 12) p
          else if cmd = 0x27
          then set_two 1 (to_fix C data_bytes (off + 0) 2 12) 2 (to_fix C data_bytes (off + 2) 2 12) p
          else if cmd = 0x28 then vec_add p (to_vecb C data_bytes off 10 3 12)
          else Inr p))"

definition from_end :: "'a list \<Rightarrow> nat \<Rightarrow> 'a" where
  "from_end xs k = xs ! (length xs - k)"

definition new_faces :: "int option \<Rightarrow> int \<Rightarrow> 'c dl_vertex list \<Rightarrow> 'c dl_face list" where
  "new_faces pt material_id vs =
     (case pt of
        None \<Rightarrow> []
      | Some t \<Rightarrow>
         (if (t = 0 \<or> t = 1) \<and> int (length vs) mod (t + 3) = 0
          then [\<lparr>f_vertices = drop (length vs - nat (t + 3)) vs, f_material = material_id\<rparr>]
          else if t = 2 \<and> length vs \<ge> 3
          then [\<lparr>f_vertices =
                   (if length vs mod 2 = 0 then [from_end vs 2, from_end vs 3, from_end vs 1]
                    else [from_end vs 3, from_end vs 2, from_end vs 1]),
                 f_material = material_id\<rparr>]
          else if t = 3 \<and> length vs mod 2 = 0 \<and> length vs \<ge> 4
          then [\<lparr>f_vertices = [from_end vs 4, from_end vs 3, from_end vs 1, from_end vs 2],
                 f_material = material_id\<rparr>]
          else []))"

definition read_vertex :: "'c codec \<Rightarrow> nat \<Rightarrow> byte list \<Rightarrow> int \<Rightarrow> 'c dl_state
    \<Rightarrow> py_error + 'c dl_state" where
  "read_vertex C cmd data_bytes material_id s =
     (case new_position C cmd data_bytes (offset s) (position s) of
        Inl e \<Rightarrow> Inl e
      | Inr np \<Rightarrow>
         (case vertices_faces s of
            None \<Rightarrow> Inl AttributeError
          | Some (vs, fs) \<Rightarrow>
              (let vs' = vs @ [\<lparr>v_position = Some np, v_normal = normal s, v_uv = tex_coords s,
                                 v_color = color s, v_group = group_id s\<rparr>]
               in Inr (s\<lparr>vertices_faces := Some (vs', fs @ new_faces (p_type s) material_id vs'),
                         offset := offset s + (if cmd = 0x23 then 8 else 4),
                         position := Some np\<rparr>))))"

text \<open>One command of the stream: the \<open>if\<close>/\<open>elif\<close> chain in the body of the \<open>for\<close> loop.\<close>

definition exec_cmd :: "'c codec \<Rightarrow> byte list \<Rightarrow> nat list \<Rightarrow> byte list \<Rightarrow> int \<Rightarrow> nat
    \<Rightarrow> 'c dl_state \<Rightarrow> py_error + 'c dl_state" where
  "exec_cmd C bmd_bytes transform_ids data_bytes material_id cmd s =
     (if cmd = 0x40 then
        Inr (s\<lparr>p_type := Some (to_uint data_bytes (offset s) 1 mod 4),
               accum_vertices := (case vertices_faces s of None \<Rightarrow> accum_vertices s
                                  | Some (vs, fs) \<Rightarrow> accum_vertices s @ vs),
               accum_faces := (case vertices_faces s of None \<Rightarrow> accum_faces s
                               | Some (vs, fs) \<Rightarrow> accum_faces s @ fs),
               vertices_faces := Some ([], []),
               offset := offset s + 4\<rparr>)
      else if cmd = 0x14 then
        (let transform_id = nat (to_uint data_bytes (offset s) 4 mod 32)
         in if transform_id < length transform_ids
            then Inr (s\<lparr>group_id := Some (to_uint bmd_bytes
                          (nat (to_uint bmd_bytes 0x2c 4) + transform_ids ! transform_id * 2) 2),
                        offset := offset s + 4\<rparr>)
            else Inl IndexError)
      else if cmd = 0x20 then
        Inr (s\<lparr>color := Some (uint16_to_color C (to_uint data_bytes (offset s) 2) 1),
               offset := offset s + 4\<rparr>)
      else if cmd = 0x21 then
        Inr (s\<lparr>normal := Some (to_vecb C data_bytes (offset s) 10 3 9), offset := offset s + 4\<rparr>)
      else if cmd = 0x22 then
        Inr (s\<lparr>tex_coords := Some (to_vec C data_bytes (offset s) 2 2 4), offset := offset s + 4\<rparr>)
      else if cmd \<in> {0x23, 0x24, 0x25, 0x26, 0x27, 0x28} then
        read_vertex C cmd data_bytes material_id s
      else if cmd \<in> {0x34} then Inr (s\<lparr>offset := offset s + 128\<rparr>)
      else if cmd \<in> {0x16, 0x18} then Inr (s\<lparr>offset := offset s + 64\<rparr>)
      else if cmd \<in> {0x17, 0x19} then Inr (s\<lparr>offset := offset s + 48\<rparr>)
      else if cmd \<in> {0x1a} then Inr (s\<lparr>offset := offset s + 36\<rparr>)
      else if cmd \<in> {0x1b, 0x1c, 0x70} then Inr (s\<lparr>offset := offset s + 12\<rparr>)
      else if cmd \<in> {0x71} then Inr (s\<lparr>offset := offset s + 8\<rparr>)
      else if cmd \<in> {0x10, 0x12, 0x13, 0x29, 0x2a, 0x2b, 0x30, 0x31, 0x32, 0x33, 0x50, 0x60, 0x72}
      then Inr (s\<lparr>offset := offset s + 4\<rparr>)
      else if cmd \<in> {0x00, 0x11, 0x15, 0x41} then Inr s
      else Inl (UnknownGXCommand cmd (offset s)))"

fun exec_cmds :: "'c codec \<Rightarrow> byte list \<Rightarrow> nat list \<Rightarrow> byte list \<Rightarrow> int \<Rightarrow> nat list
    \<Rightarrow> 'c dl_state \<Rightarrow> py_error + 'c dl_state" where
  "exec_cmds C bmd_bytes transform_ids data_bytes material_id [] s = Inr s"
| "exec_cmds C bmd_bytes transform_ids data_bytes material_id (cmd # cmds) s =
     (case exec_cmd C bmd_bytes transform_ids data_bytes material_id cmd s of
        Inl e \<Rightarrow> Inl e
      | Inr s' \<Rightarrow> exec_cmds C bmd_bytes transform_ids data_bytes material_id cmds s')"

lemma exec_cmd_offset_mono:
  "exec_cmd C bmd_bytes tids data mid cmd s = Inr s' \<Longrightarrow> offset s \<le> offset s'"
  unfolding exec_cmd_def read_vertex_def
  by (auto simp: Let_def split: if_splits sum.splits option.splits prod.splits)

lemma exec_cmds_offset_mono:
  "exec_cmds C bmd_bytes tids data mid cmds s = Inr s' \<Longrightarrow> offset s \<le> offset s'"
proof (induction cmds arbitrary: s)
  case Nil
  then show ?case by simp
next
  case (Cons c cs)
  then show ?case
    by (auto split: sum.splits dest!: exec_cmd_offset_mono) fastforce
qed


text \<open>The \<open>while\<close> loop: one word of four commands per round.  Every round advances the
  offset by at least four, which bounds the number of rounds.\<close>

function run_display_list :: "'c codec \<Rightarrow> byte list \<Rightarrow> nat list \<Rightarrow> byte list \<Rightarrow> int
    \<Rightarrow> 'c dl_state \<Rightarrow> py_error + 'c dl_state" where
  "run_display_list C bmd_bytes transform_ids data_bytes material_id s =
     (if offset s < length data_bytes
      then case exec_cmds C bmd_bytes transform_ids data_bytes material_id
                  (to_uint_list C data_bytes (offset s) 1 4) (s\<lparr>offset := offset s + 4\<rparr>) of
             Inl e \<Rightarrow> Inl e
           | Inr s' \<Rightarrow> run_display_list C bmd_bytes transform_ids data_bytes material_id s'
      else Inr s)"
  by pat_completeness auto
termination
proof (relation "measure (\<lambda>(C, bmd_bytes, transform_ids, data_bytes, material_id, s).
    length data_bytes - offset s)")
  show "wf (measure (\<lambda>(C, bmd_bytes, transform_ids, data_bytes, material_id, s).
    length data_bytes - offset (s :: 'c dl_state)))"
    by simp
next
  fix C :: "'c codec" and bmd_bytes transform_ids data_bytes material_id
    and s s' :: "'c dl_state"
  assume lt: "offset s < length data_bytes"
    and ex: "exec_cmds C bmd_bytes transform_ids data_bytes material_id
                  (to_uint_list C data_bytes (offset s) 1 4) (s\<lparr>offset := offset s + 4\<rparr>) = Inr s'"
  from exec_cmds_offset_mono [OF ex] have "offset s + 4 \<le> offset s'" by simp
  with lt show "((C, bmd_bytes, transform_ids, data_bytes, material_id, s'),
          (C, bmd_bytes, transform_ids, data_bytes, material_id, s))
       \<in> measure (\<lambda>(C, bmd_bytes, transform_ids, data_bytes, material_id, s).
            length data_bytes - offset s)"
    by simp
qed

declare run_display_list.simps [simp del]

definition init_state :: "'c dl_state" where
  "init_state = \<lparr>p_type = None, vertices_faces = None, offset = 0, tex_coords = None,
     normal = None, color = None, position = None, group_id = None,
     accum_vertices = [], accum_faces = []\<rparr>"

definition dl_header :: "byte list \<Rightarrow> byte list \<Rightarrow> byte list" where
  "dl_header bmd_bytes displist_bytes =
     get_n_bytes bmd_bytes (nat (to_uint displist_bytes 4 4)) 0x10"

definition dl_transform_ids :: "'c codec \<Rightarrow> byte list \<Rightarrow> byte list \<Rightarrow> nat list" where
  "dl_transform_ids C bmd_bytes displist_bytes =
     (let header_bytes = dl_header bmd_bytes displist_bytes
      in to_uint_list C bmd_bytes (nat (to_uint header_bytes 4 4)) 1
           (nat (to_uint header_bytes 0 4)))"

definition dl_data_bytes :: "byte list \<Rightarrow> byte list \<Rightarrow> byte list" where
  "dl_data_bytes bmd_bytes displist_bytes =
     (let header_bytes = dl_header bmd_bytes displist_bytes
      in get_n_bytes bmd_bytes (nat (to_uint header_bytes 0xc 4))
           (nat (to_uint header_bytes 8 4)))"

definition import_display_list :: "'c codec \<Rightarrow> byte list \<Rightarrow> byte list \<Rightarrow> int
    \<Rightarrow> py_error + ('c dl_vertex list \<times> 'c dl_face list)" where
  "import_display_list C bmd_bytes displist_bytes material_id =
     (case run_display_list C bmd_bytes (dl_transform_ids C bmd_bytes displist_bytes)
             (dl_data_bytes bmd_bytes displist_bytes) material_id init_state of
        Inl e \<Rightarrow> Inl e
      | Inr s \<Rightarrow>
         (case vertices_faces s of
            None \<Rightarrow> Inr (accum_vertices s, accum_faces s)
          | Some (vs, fs) \<Rightarrow> Inr (accum_vertices s @ vs, accum_faces s @ fs)))"

section \<open>Round half up\<close>

lemma bit_length_nonpos: "n \<le> 0 \<Longrightarrow> bit_length n = 0"
  by (simp add: bit_length.simps)

lemma bit_length_bounds:
  "0 < n \<Longrightarrow> 2 ^ (bit_length n - 1) \<le> n \<and> n < 2 ^ bit_length n"
proof (induction n rule: bit_length.induct)
  case (1 n)
  show ?case
  proof (cases "n = 1")
    case True
    then show ?thesis by (simp add: bit_length.simps [of 1] bit_length.simps [of 0])
  next
    case False
    then have h: "0 < n div 2" using "1.prems" by simp
    have bl: "bit_length n = Suc (bit_length (n div 2))"
      using "1.prems" by (subst bit_length.simps) simp
    have pos: "0 < bit_length (n div 2)"
      using h by (subst bit_length.simps) simp
    from "1.IH" h "1.prems" have IH: "2 ^ (bit_length (n div 2) - 1) \<le> n div 2"
      "n div 2 < 2 ^ bit_length (n div 2)" by simp_all
    have "2 ^ (bit_length n - 1) = 2 * 2 ^ (bit_length (n div 2) - 1)"
      using pos by (simp add: bl power_Suc [symmetric] del: power_Suc)
    also have "\<dots> \<le> 2 * (n div 2)" using IH(1) by simp
    also have "\<dots> \<le> n" by simp
    finally have lo: "2 ^ (bit_length n - 1) \<le> n" .
    have "n < 2 * (n div 2) + 2" by simp
    also have "\<dots> \<le> 2 * 2 ^ bit_length (n div 2)" using IH(2) by simp
    finally have "n < 2 ^ bit_length n" by (simp add: bl)
    then show ?thesis using lo by simp
  qed
qed

lemma floor_dyadic:
  "\<lfloor>real_of_int m * 2 powi e\<rfloor> = (if 0 \<le> e then m * 2 ^ nat e else m div 2 ^ nat (- e))"
proof (cases "0 \<le> e")
  case True
  then have "(2::real) powi e = 2 ^ nat e" by (simp add: power_int_def)
  then have "real_of_int m * 2 powi e = real_of_int (m * 2 ^ nat e)" by simp
  then show ?thesis using True by (simp only: floor_of_int if_True)
next
  case False
  then have "(2::real) powi e = 1 / 2 ^ nat (- e)" by (simp add: power_int_def field_simps)
  then have "real_of_int m * 2 powi e = real_of_int m / real_of_int (2 ^ nat (- e))" by simp
  then show ?thesis using False by (simp only: floor_divide_of_int_eq if_False)
qed

lemma pow2_add: "(2::real) powi (a + b) = 2 powi a * 2 powi b"
  by (simp add: power_int_add)

lemma pow2_nat_add: "(2::real) powi (int n + a) = 2 ^ n * 2 powi a"
  by (simp add: pow2_add)

lemma dyadic_bounds:
  assumes "M \<noteq> 0"
  shows "2 powi (int (bit_length \<bar>M\<bar>) - 1 + a) \<le> \<bar>real_of_int M * 2 powi a\<bar>"
    and "\<bar>real_of_int M * 2 powi a\<bar> < 2 powi (int (bit_length \<bar>M\<bar>) + a)"
proof -
  have pos: "0 < \<bar>M\<bar>" using assms by simp
  note b = bit_length_bounds [OF pos]
  have bl: "0 < bit_length \<bar>M\<bar>" using pos by (subst bit_length.simps) simp
  have p: "(0::real) < 2 powi a" by simp
  have abs: "\<bar>real_of_int M * 2 powi a\<bar> = real_of_int \<bar>M\<bar> * 2 powi a"
    by (simp add: abs_mult)
  have "int (bit_length \<bar>M\<bar>) - 1 = int (bit_length \<bar>M\<bar> - 1)" using bl by simp
  then have "(2::real) powi (int (bit_length \<bar>M\<bar>) - 1 + a) = 2 ^ (bit_length \<bar>M\<bar> - 1) * 2 powi a"
    by (simp only: pow2_nat_add)
  also have "\<dots> \<le> real_of_int \<bar>M\<bar> * 2 powi a"
  proof (rule mult_right_mono)
    have "real_of_int (2 ^ (bit_length \<bar>M\<bar> - 1)) \<le> real_of_int \<bar>M\<bar>"
      using b by (simp only: of_int_le_iff)
    then show "(2::real) ^ (bit_length \<bar>M\<bar> - 1) \<le> real_of_int \<bar>M\<bar>" by simp
    show "(0::real) \<le> 2 powi a" by simp
  qed
  finally show "2 powi (int (bit_length \<bar>M\<bar>) - 1 + a) \<le> \<bar>real_of_int M * 2 powi a\<bar>"
    by (simp only: abs)
  have "real_of_int \<bar>M\<bar> < real_of_int (2 ^ bit_length \<bar>M\<bar>)"
    using b by (simp only: of_int_less_iff)
  then have "real_of_int \<bar>M\<bar> * 2 powi a < 2 ^ bit_length \<bar>M\<bar> * 2 powi a"
    using p by simp
  also have "\<dots> = 2 powi (int (bit_length \<bar>M\<bar>) + a)"
    by (simp only: pow2_nat_add)
  finally show "\<bar>real_of_int M * 2 powi a\<bar> < 2 powi (int (bit_length \<bar>M\<bar>) + a)"
    by (simp only: abs)
qed

lemma power_int_2_mono: "a \<le> b \<Longrightarrow> (2::real) powi a \<le> 2 powi b"
  by (rule power_int_increasing) simp_all

lemma power_int_2_less_cancel: "(2::real) powi a < 2 powi b \<Longrightarrow> a < b"
  using power_int_2_mono [of b a] by (cases "a < b") auto

lemma overflow_check_small:
  assumes "\<bar>real_of_int M * 2 powi a\<bar> < 2 powi 1024"
  shows "\<exists>q b. overflow_check M a = Finite q b \<and> real_of_int q * 2 powi b = real_of_int M * 2 powi a"
proof (cases "M = 0")
  case True
  then show ?thesis by (simp add: overflow_check_def)
next
  case False
  from dyadic_bounds(1) [OF False, of a] assms
  have "(2::real) powi (int (bit_length \<bar>M\<bar>) - 1 + a) < 2 powi 1024" by simp
  then have "int (bit_length \<bar>M\<bar>) - 1 + a < 1024" by (rule power_int_2_less_cancel)
  then show ?thesis using False by (simp add: overflow_check_def)
qed


lemma dyadic_eq_dvd:
  assumes eq: "real_of_int M * 2 powi a = real_of_int m' * 2 powi e'"
    and m': "\<bar>m'\<bar> < 2 ^ 53" and M: "2 ^ (52 + k) \<le> \<bar>M\<bar>"
  shows "2 ^ k dvd M"
proof (cases "a \<le> e'")
  case True
  define d where "d = nat (e' - a)"
  have "e' = int d + a" using True by (simp add: d_def)
  then have "(2::real) powi e' = 2 ^ d * 2 powi a" by (simp only: pow2_nat_add)
  then have "real_of_int M * 2 powi a = real_of_int (m' * 2 ^ d) * 2 powi a"
    using eq by simp
  then have "real_of_int M = real_of_int (m' * 2 ^ d)" by simp
  then have Md: "M = m' * 2 ^ d" by (simp only: of_int_eq_iff)
  have "\<bar>M\<bar> = \<bar>m'\<bar> * 2 ^ d" by (simp add: Md abs_mult)
  also have "\<dots> < 2 ^ 53 * 2 ^ d" using m' by simp
  finally have "(2::int) ^ (52 + k) < 2 ^ (53 + d)" using M by (simp add: power_add)
  then have "52 + k < 53 + d" by simp
  then have "k \<le> d" by simp
  then have "(2::int) ^ k dvd 2 ^ d" by (rule le_imp_power_dvd)
  then show ?thesis unfolding Md by (rule dvd_mult)
next
  case False
  define d where "d = nat (a - e')"
  have "a = int d + e'" using False by (simp add: d_def)
  then have "(2::real) powi a = 2 ^ d * 2 powi e'" by (simp only: pow2_nat_add)
  then have "real_of_int (M * 2 ^ d) * 2 powi e' = real_of_int m' * 2 powi e'"
    using eq by simp
  then have "real_of_int (M * 2 ^ d) = real_of_int m'" by simp
  then have "m' = M * 2 ^ d" by (simp only: of_int_eq_iff)
  then have "\<bar>m'\<bar> = \<bar>M\<bar> * 2 ^ d" by (simp add: abs_mult)
  moreover have "\<bar>M\<bar> * 1 \<le> \<bar>M\<bar> * 2 ^ d" by (rule mult_left_mono) simp_all
  ultimately have "\<bar>M\<bar> \<le> \<bar>m'\<bar>" by simp
  then have lt: "\<bar>M\<bar> < 2 ^ 53" using m' by simp
  show ?thesis
  proof (cases "k = 0")
    case True
    then show ?thesis by simp
  next
    case False
    then have "53 \<le> 52 + k" by simp
    then have "(2::int) ^ 53 \<le> 2 ^ (52 + k)" by (rule power_increasing) simp
    then have False using lt M by linarith
    then show ?thesis ..
  qed
qed

lemma round_float_exact:
  assumes eq: "real_of_int M * 2 powi a = real_of_int m' * 2 powi e'"
    and m': "\<bar>m'\<bar> < 2 ^ 53" and a: "- 1074 \<le> a"
    and small: "\<bar>real_of_int M * 2 powi a\<bar> < 2 powi 1024"
  shows "\<exists>q b. round_float M a = Finite q b \<and> real_of_int q * 2 powi b = real_of_int M * 2 powi a"
proof (cases "int (bit_length \<bar>M\<bar>) - 53 \<le> 0")
  case True
  then have "max (int (bit_length \<bar>M\<bar>) - 53) (- 1074 - a) \<le> 0" using a by simp
  then have "round_float M a = overflow_check M a" by (simp add: round_float_def Let_def)
  then show ?thesis using overflow_check_small [OF small] by simp
next
  case False
  define k where "k = nat (int (bit_length \<bar>M\<bar>) - 53)"
  have kpos: "0 < k" and kk: "int k = int (bit_length \<bar>M\<bar>) - 53"
    using False by (simp_all add: k_def)
  have mx: "max (int (bit_length \<bar>M\<bar>) - 53) (- 1074 - a) = int k"
    using a kk kpos by simp
  have M0: "0 < \<bar>M\<bar>" using False by (cases "M = 0") (simp_all add: bit_length_nonpos)
  have "bit_length \<bar>M\<bar> - 1 = 52 + k" using kk by simp
  then have "2 ^ (52 + k) \<le> \<bar>M\<bar>" using bit_length_bounds [OF M0] by simp
  from dyadic_eq_dvd [OF eq m' this] have dv: "2 ^ k dvd M" .
  then have r0: "M mod 2 ^ k = 0" by simp
  have q: "M div 2 ^ k * 2 ^ k = M" using dv by simp
  have rf: "round_float M a = overflow_check (M div 2 ^ k) (a + int k)"
    unfolding round_float_def mx Let_def using kpos by (simp add: r0)
  have "real_of_int (M div 2 ^ k) * 2 powi (a + int k)
      = real_of_int (M div 2 ^ k * 2 ^ k) * 2 powi a"
    by (simp add: pow2_add)
  then have v: "real_of_int (M div 2 ^ k) * 2 powi (a + int k) = real_of_int M * 2 powi a"
    by (simp only: q)
  then have "\<bar>real_of_int (M div 2 ^ k) * 2 powi (a + int k)\<bar> < 2 powi 1024"
    using small by simp
  from overflow_check_small [OF this] show ?thesis unfolding rf v by simp
qed

lemma add_half_exact_sum:
  "real_of_int (m * 2 ^ nat (e - min e (- 1)) + 1 * 2 ^ nat (- 1 - min e (- 1))) * 2 powi (min e (- 1))
     = real_of_int m * 2 powi e + 1 / 2"
proof -
  define a where "a = min e (- 1)"
  have e: "e = int (nat (e - a)) + a" and h: "- 1 = int (nat (- 1 - a)) + a"
    by (simp_all add: a_def)
  have "(2::real) powi e = 2 ^ nat (e - a) * 2 powi a"
    by (subst e) (simp only: pow2_nat_add)
  moreover have "(2::real) powi (- 1) = 2 ^ nat (- 1 - a) * 2 powi a"
    by (subst h) (simp only: pow2_nat_add)
  moreover have "(2::real) powi (- 1) = 1 / 2" by (simp add: power_int_minus_divide)
  ultimately show ?thesis unfolding a_def [symmetric]
    by (simp add: algebra_simps)
qed

lemma int_round_mid_up_exact:
  assumes x: "is_double (Finite m e)" and s: "is_double (Finite m' e')"
    and sum: "fval (Finite m' e') = fval (Finite m e) + 1 / 2"
  shows "int_round_mid_up (PyFloat (Finite m e)) = Inr \<lfloor>fval (Finite m e) + 1 / 2\<rfloor>"
proof -
  define a where "a = min e (- 1)"
  define M where "M = m * 2 ^ nat (e - a) + 2 ^ nat (- 1 - a)"
  have val: "real_of_int M * 2 powi a = real_of_int m * 2 powi e + 1 / 2"
    unfolding M_def a_def using add_half_exact_sum [of m e] by simp
  have eq: "real_of_int M * 2 powi a = real_of_int m' * 2 powi e'"
    using sum val by (simp add: fval_def)
  have m': "\<bar>m'\<bar> < 2 ^ 53" and bl: "int (bit_length \<bar>m'\<bar>) + e' \<le> 1024"
    using s by (simp_all add: is_double_def)
  have a: "- 1074 \<le> a" using x by (simp add: is_double_def a_def)
  have small: "\<bar>real_of_int M * 2 powi a\<bar> < 2 powi 1024"
  proof (cases "m' = 0")
    case True
    then show ?thesis using eq by simp
  next
    case False
    have "\<bar>real_of_int m' * 2 powi e'\<bar> < 2 powi (int (bit_length \<bar>m'\<bar>) + e')"
      by (rule dyadic_bounds(2) [OF False])
    also have "\<dots> \<le> 2 powi 1024" using bl by (rule power_int_2_mono)
    finally show ?thesis using eq by simp
  qed
  from round_float_exact [OF eq m' a small] obtain q b where
    rf: "round_float M a = Finite q b" and v: "real_of_int q * 2 powi b = real_of_int M * 2 powi a"
    by blast
  have add: "add_half (PyFloat (Finite m e)) = Inr (Finite q b)"
    by (simp add: add_half_def Let_def a_def [symmetric] M_def [symmetric] rf)
  have fl: "float_floordiv_1 (Finite q b) = Finite \<lfloor>real_of_int q * 2 powi b\<rfloor> 0"
    by (simp add: float_floordiv_1_def floor_dyadic)
  have "int_round_mid_up (PyFloat (Finite m e)) = Inr \<lfloor>real_of_int q * 2 powi b\<rfloor>"
    by (simp add: int_round_mid_up_def add fl py_int_def)
  then show ?thesis by (simp add: v val fval_def)
qed

lemma floor_half_counterexample:
  "\<lfloor>fval (Finite 9007199254740991 (- 54)) + 1 / 2\<rfloor> = 0"
  "\<lfloor>fval (Finite 4503599627370497 0) + 1 / 2\<rfloor> = 4503599627370497"
proof -
  have "fval (Finite 9007199254740991 (- 54)) + 1 / 2 = real_of_int 18014398509481983 * 2 powi (- 54)"
    by (simp add: fval_def power_int_minus_divide)
  then show "\<lfloor>fval (Finite 9007199254740991 (- 54)) + 1 / 2\<rfloor> = 0"
    by (simp only: floor_dyadic) simp
  have "fval (Finite 4503599627370497 0) + 1 / 2 = real_of_int 9007199254740995 * 2 powi (- 1)"
    by (simp add: fval_def power_int_minus_divide)
  then show "\<lfloor>fval (Finite 4503599627370497 0) + 1 / 2\<rfloor> = 4503599627370497"
    by (simp only: floor_dyadic) simp
qed

lemma bankers_round_halves: "bankers_round 2.5 = 2" "bankers_round (- 2.5) = - 2"
  by (simp_all add: bankers_round_def)

text \<open>
  Claim C5.  For every double \<open>x\<close> such that \<open>x + 0.5\<close> is a double as well (the sum is
  exact), \<open>int_round_mid_up\<close> returns the greatest integer that does not exceed \<open>x + 0.5\<close>.
  At the exact halves it gives \<open>2.5 \<mapsto> 3\<close> and \<open>-2.5 \<mapsto> -2\<close>, where banker's rounding
  gives \<open>2\<close> and \<open>-2\<close>.  For the infinities and \<open>nan\<close> it raises \<open>ValueError\<close>.
\<close>

theorem int_round_mid_up_half_up:
  assumes "is_double (Finite m e)" and "is_double (Finite m' e')"
    and "fval (Finite m' e') = fval (Finite m e) + 1 / 2"
  shows "int_round_mid_up (PyFloat (Finite m e)) = Inr \<lfloor>fval (Finite m e) + 1 / 2\<rfloor>
    \<and> int_round_mid_up (PyFloat (Finite 5 (- 1))) = Inr 3
    \<and> int_round_mid_up (PyFloat (Finite (- 5) (- 1))) = Inr (- 2)
    \<and> fval (Finite 5 (- 1)) = 2.5 \<and> fval (Finite (- 5) (- 1)) = - 2.5
    \<and> bankers_round 2.5 = 2 \<and> bankers_round (- 2.5) = - 2
    \<and> int_round_mid_up (PyFloat (Infinity s)) = Inl ValueError
    \<and> int_round_mid_up (PyFloat NaN) = Inl ValueError"
proof -
  have "int_round_mid_up (PyFloat (Finite 5 (- 1))) = Inr 3" by code_simp
  moreover have "int_round_mid_up (PyFloat (Finite (- 5) (- 1))) = Inr (- 2)" by code_simp
  moreover have "fval (Finite 5 (- 1)) = 2.5" "fval (Finite (- 5) (- 1)) = - 2.5"
    by (simp_all add: fval_def power_int_minus_divide)
  moreover have "int_round_mid_up (PyFloat (Infinity s)) = Inl ValueError"
    "int_round_mid_up (PyFloat NaN) = Inl ValueError"
    by (cases s; simp add: int_round_mid_up_def add_half_def float_floordiv_1_def py_int_def)+
  ultimately show ?thesis
    using int_round_mid_up_exact [OF assms] bankers_round_halves by simp
qed

theorem int_round_mid_up_half_up_witness:
  "is_double (Finite 7 (- 2)) \<and> is_double (Finite 9 (- 2))
    \<and> int_round_mid_up (PyFloat (Finite 7 (- 2))) = Inr 2"
proof -
  have d: "is_double (Finite 7 (- 2))" "is_double (Finite 9 (- 2))" by code_simp+
  have v: "fval (Finite 9 (- 2)) = fval (Finite 7 (- 2)) + 1 / 2"
    by (simp add: fval_def power_int_minus_divide)
  have "\<lfloor>fval (Finite 9 (- 2))\<rfloor> = 2"
    unfolding fval_def float64.case by (simp only: floor_dyadic) simp
  then have "\<lfloor>fval (Finite 7 (- 2)) + 1 / 2\<rfloor> = 2" by (simp only: v)
  then show ?thesis using int_round_mid_up_half_up [OF d v] d by simp
qed

text \<open>
  The sum \<open>x + 0.5\<close> is rounded.  At \<open>x = 0.49999999999999994\<close>, the double
  \<open>(2^53 - 1) * 2^-54\<close>, it rounds to \<open>1.0\<close> and the result is \<open>1\<close>, while the greatest integer
  that does not exceed \<open>x + 0.5\<close> is \<open>0\<close>; at \<open>x = 2^52 + 1\<close> the result is \<open>2^52 + 2\<close>.
\<close>

theorem int_round_mid_up_counterexample:
  "is_double (Finite 9007199254740991 (- 54))
    \<and> int_round_mid_up (PyFloat (Finite 9007199254740991 (- 54))) = Inr 1
    \<and> \<lfloor>fval (Finite 9007199254740991 (- 54)) + 1 / 2\<rfloor> = 0
    \<and> is_double (Finite 4503599627370497 0)
    \<and> int_round_mid_up (PyFloat (Finite 4503599627370497 0)) = Inr 4503599627370498
    \<and> \<lfloor>fval (Finite 4503599627370497 0) + 1 / 2\<rfloor> = 4503599627370497"
proof -
  have "is_double (Finite 9007199254740991 (- 54))" by code_simp
  moreover have "int_round_mid_up (PyFloat (Finite 9007199254740991 (- 54))) = Inr 1"
    by code_simp
  moreover have "is_double (Finite 4503599627370497 0)" by code_simp
  moreover have "int_round_mid_up (PyFloat (Finite 4503599627370497 0)) = Inr 4503599627370498"
    by code_simp
  ultimately show ?thesis using floor_half_counterexample by simp
qed

section \<open>Signed 10-bit components\<close>

lemma uint_of_bytes_of_uint:
  "0 \<le> n \<Longrightarrow> n < 256 ^ k \<Longrightarrow> uint_of_bytes (bytes_of_uint k n) = n"
proof (induction k arbitrary: n)
  case 0
  then show ?case by simp
next
  case (Suc k)
  have "n div 256 < 256 ^ k" using Suc.prems by (simp add: div_less_iff_less_mult)
  moreover have "0 \<le> n div 256" using Suc.prems by simp
  ultimately have "uint_of_bytes (bytes_of_uint k (n div 256)) = n div 256"
    by (rule Suc.IH [rotated])
  moreover have "uint (word_of_int n :: byte) = n mod 256" by (simp add: uint_word_of_int)
  ultimately show ?case by simp
qed

lemma length_bytes_of_uint: "length (bytes_of_uint k n) = k"
  by (induction k arbitrary: n) auto

lemma sign_int10_mod:
  assumes "-512 \<le> n" "n \<le> 511"
  shows "sign_int10 (n mod 1024) = n"
proof (cases "0 \<le> n")
  case True
  then have "n mod 1024 = n" using assms by simp
  then show ?thesis using assms by (simp add: sign_int10_def)
next
  case False
  have "n mod 1024 = (n + 1024) mod 1024" by simp
  also have "\<dots> = n + 1024" using assms False by (intro mod_pos_pos_trivial) simp_all
  finally show ?thesis using False assms by (simp add: sign_int10_def)
qed

lemma bij_betw_sign_int10: "bij_betw sign_int10 {0..1023} {-512..511}"
  unfolding bij_betw_def
proof
  show "inj_on sign_int10 {0..1023}"
    by (auto simp: inj_on_def sign_int10_def split: if_splits)
  show "sign_int10 ` {0..1023} = {-512..511}"
  proof
    show "sign_int10 ` {0..1023} \<subseteq> {-512..511}"
      by (auto simp: sign_int10_def)
    show "{-512..511} \<subseteq> sign_int10 ` {0..1023}"
    proof
      fix x :: int
      assume "x \<in> {-512..511}"
      then have "sign_int10 (x mod 1024) = x" by (simp add: sign_int10_mod)
      moreover have "x mod 1024 \<in> {0..1023}" by simp
      ultimately show "x \<in> sign_int10 ` {0..1023}" by (metis imageI)
    qed
  qed
qed

lemma and_mask10: "(x::int) AND 0x3ff = x mod 1024"
proof -
  have "x AND mask 10 = x mod 2 ^ 10"
    by (simp only: take_bit_eq_mask [symmetric] take_bit_eq_mod)
  then show ?thesis by (simp add: mask_eq_exp_minus_1)
qed

lemma unpack3:
  fixes a b c v :: int
  assumes "0 \<le> a" "a < 1024" "0 \<le> b" "b < 1024" "0 \<le> c" "c < 1024"
    and v: "v = a + push_bit 10 b + push_bit 20 c"
  shows "v mod 1024 = a" "drop_bit 10 v mod 1024 = b" "drop_bit 20 v mod 1024 = c"
proof -
  define k where "k = b + 1024 * c"
  have v': "v = a + 1024 * k" using v by (simp add: push_bit_eq_mult k_def)
  show "v mod 1024 = a" using assms(1,2) unfolding v' by simp
  have d: "v div 1024 = k" using assms(1,2) unfolding v' by simp
  have kb: "k mod 1024 = b" using assms(3,4) unfolding k_def by simp
  have kc: "k div 1024 = c" using assms(3,4) unfolding k_def by simp
  show "drop_bit 10 v mod 1024 = b" using d kb by (simp add: drop_bit_eq_div)
  have "v div 1048576 = v div 1024 div 1024" by (simp add: zdiv_zmult2_eq [symmetric])
  then have "v div 1048576 = c" using d kc by simp
  then show "drop_bit 20 v mod 1024 = c" using assms(5,6) by (simp add: drop_bit_eq_div)
qed

lemma from_vecb_to_vec30:
  fixes x y z :: py_number and p :: nat and a b c :: int
  assumes fx: "fix_to_int x p = Inr a" and fy: "fix_to_int y p = Inr b"
    and fz: "fix_to_int z p = Inr c"
    and r: "-512 \<le> a" "a \<le> 511" "-512 \<le> b" "b \<le> 511" "-512 \<le> c" "c \<le> 511"
  shows "\<exists>bs. from_vecb [x, y, z] 10 p 4 = Inr bs \<and> to_vec30 bs 0 = [a, b, c]"
proof -
  define a' b' c' where "a' = a mod 1024" and "b' = b mod 1024" and "c' = c mod 1024"
  define v where "v = a' + push_bit 10 b' + push_bit 20 c'"
  have rng: "0 \<le> a'" "a' < 1024" "0 \<le> b'" "b' < 1024" "0 \<le> c'" "c' < 1024"
    by (simp_all add: a'_def b'_def c'_def)
  have step: "\<And>u n vs i. fix_to_int u p = Inr n \<Longrightarrow>
      from_vecb_sum (u # vs) 10 p i =
        (case from_vecb_sum vs 10 p (Suc i) of
           Inl e \<Rightarrow> Inl e
         | Inr num \<Rightarrow> Inr (push_bit (10 * i) (n mod 1024) + num))"
    by (auto simp: fix_to_int_def split: sum.splits)
  have "from_vecb_sum [z] 10 p (Suc (Suc 0)) = Inr (push_bit 20 c')"
    by (simp only: step [OF fz] from_vecb_sum.simps(1)) (simp add: c'_def)
  then have "from_vecb_sum [y, z] 10 p (Suc 0) = Inr (push_bit 10 b' + push_bit 20 c')"
    by (simp only: step [OF fy]) (simp add: b'_def)
  then have sum: "from_vecb_sum [x, y, z] 10 p 0 = Inr v"
    by (simp only: step [OF fx]) (simp add: a'_def v_def)
  have v0: "0 \<le> v" using rng by (simp add: v_def push_bit_eq_mult)
  have "1024 * b' \<le> 1024 * 1023" "1048576 * c' \<le> 1048576 * 1023" using rng by simp_all
  then have "v \<le> 1023 + 1024 * 1023 + 1048576 * 1023" using rng(2)
    unfolding v_def push_bit_eq_mult by simp
  then have v1: "v < 256 ^ 4" by simp
  define bs where "bs = bytes_of_uint 4 v"
  have "from_vecb [x, y, z] 10 p 4 = from_uint v 4"
    by (simp only: from_vecb_def sum sum.case)
  also have "\<dots> = Inr bs"
    using v0 v1 unfolding from_uint_def bs_def by (simp del: bytes_of_uint.simps)
  finally have fv: "from_vecb [x, y, z] 10 p 4 = Inr bs" .
  have len: "length bs = 4" unfolding bs_def by (rule length_bytes_of_uint)
  have "uint_of_bytes bs = v" unfolding bs_def by (rule uint_of_bytes_of_uint [OF v0 v1])
  then have tu: "to_uint bs 0 4 = v"
    using len by (simp add: to_uint_def slice_def)
  have "to_vec30 bs 0 = [sign_int10 a', sign_int10 b', sign_int10 c']"
    unfolding to_vec30_def tu Let_def and_mask10 by (simp only: unpack3 [OF rng v_def])
  also have "\<dots> = [a, b, c]"
    using r unfolding a'_def b'_def c'_def by (simp only: sign_int10_mod)
  finally show ?thesis using fv by blast
qed

text \<open>
  Claim C10.  \<open>sign_int10\<close> maps \<open>[0, 1023]\<close> one-to-one onto \<open>[-512, 511]\<close>, and it
  undoes the reduction modulo \<open>2^10\<close> on that range.  Hence three components whose rounded
  fixed-point values (the integers \<open>int_round_mid_up(v * (1 << p))\<close>) lie in the signed 10-bit
  range, packed by \<open>from_vecb\<close> into four bytes, are read back unchanged by \<open>to_vec30\<close>.
\<close>

theorem sign_int10_roundtrip:
  fixes x y z :: py_number and p :: nat and n a b c :: int
  shows "bij_betw sign_int10 {0..1023} {-512..511}
    \<and> (-512 \<le> n \<and> n \<le> 511 \<longrightarrow> sign_int10 (n mod 1024) = n)
    \<and> (fix_to_int x p = Inr a \<and> fix_to_int y p = Inr b \<and> fix_to_int z p = Inr c
         \<and> (\<forall>v \<in> {a, b, c}. -512 \<le> v \<and> v \<le> 511) \<longrightarrow>
         (\<exists>bs. from_vecb [x, y, z] 10 p 4 = Inr bs \<and> to_vec30 bs 0 = [a, b, c]))"
  using bij_betw_sign_int10 sign_int10_mod [of n]
    from_vecb_to_vec30 [where p = p and x = x and y = y and z = z and a = a and b = b and c = c]
  by simp

theorem sign_int10_roundtrip_witness:
  "sign_int10 ((-3) mod 1024) = -3
    \<and> fix_to_int (PyFloat (Finite 3 (- 1))) 6 = Inr 96
    \<and> fix_to_int (PyInt (- 2)) 6 = Inr (- 128)
    \<and> fix_to_int (PyFloat (Finite (- 511) (- 6))) 6 = Inr (- 511)
    \<and> from_vecb [PyFloat (Finite 3 (- 1)), PyInt (- 2), PyFloat (Finite (- 511) (- 6))] 10 6 4
        = Inr [0x60, 0x00, 0x1e, 0x20]
    \<and> to_vec30 [0x60, 0x00, 0x1e, 0x20] 0 = [96, - 128, - 511]"
proof -
  have f: "fix_to_int (PyFloat (Finite 3 (- 1))) 6 = Inr 96"
    "fix_to_int (PyInt (- 2)) 6 = Inr (- 128)"
    "fix_to_int (PyFloat (Finite (- 511) (- 6))) 6 = Inr (- 511)"
    by code_simp+
  have v: "from_vecb [PyFloat (Finite 3 (- 1)), PyInt (- 2), PyFloat (Finite (- 511) (- 6))] 10 6 4
        = Inr [0x60, 0x00, 0x1e, 0x20]"
    by code_simp
  show ?thesis
    using sign_int10_roundtrip [where n = "-3" and p = 6
        and x = "PyFloat (Finite 3 (- 1))" and y = "PyInt (- 2)"
        and z = "PyFloat (Finite (- 511) (- 6))" and a = 96 and b = "- 128" and c = "- 511"]
      f v
    by simp
qed

section \<open>Classification of textures\<close>

lemma set_rgb_filter:
  "set (map rgb (filter P img)) = {rgb c |c. c \<in> set img \<and> P c}"
  by auto

lemma spec_opaque_colors_code:
  "spec_opaque_colors img = card (set (map rgb (filter (\<lambda>c. alpha c = 31) img)))"
  unfolding spec_opaque_colors_def set_rgb_filter ..

lemma nontransparent_colors_code:
  "nontransparent_colors img = card (set (map rgb (filter (\<lambda>c. alpha c \<noteq> 0) img)))"
  unfolding nontransparent_colors_def set_rgb_filter ..

lemma nontransparent_eq_opaque:
  assumes "\<forall>c \<in> set img. alpha c = 0 \<or> alpha c = 31"
  shows "nontransparent_colors img = spec_opaque_colors img"
proof -
  have "filter (\<lambda>c. alpha c \<noteq> 0) img = filter (\<lambda>c. alpha c = 31) img"
  proof (rule filter_cong [OF refl])
    fix c assume "c \<in> set img"
    with assms have "alpha c = 0 \<or> alpha c = 31" by blast
    then show "(alpha c \<noteq> 0) = (alpha c = 31)" by auto
  qed
  then show ?thesis
    by (simp only: nontransparent_colors_code spec_opaque_colors_code)
qed

lemma calc_type_translucent:
  assumes "\<exists>c \<in> set img. 0 < alpha c \<and> alpha c < 31"
  shows "calc_type img u = (if nontransparent_colors img > 8 then A3I5 else A5I3, False)"
proof -
  from assms obtain c where "c \<in> set img" "alpha c \<noteq> 0 \<and> alpha c \<noteq> 31" by force
  then have "list_ex (\<lambda>c. alpha c \<noteq> 0 \<and> alpha c \<noteq> 31) img"
    unfolding list_ex_iff by blast
  then show ?thesis
    unfolding calc_type_def nontransparent_colors_code Let_def by simp
qed

lemma calc_type_binary_alpha:
  assumes "\<forall>c \<in> set img. alpha c = 0 \<or> alpha c = 31"
  shows "calc_type img u =
    (if spec_color_count img \<le> 4 then COLOR_4
     else if \<not> u then COMPRESSED
     else if spec_color_count img \<le> 16 then COLOR_16
     else if spec_color_count img \<le> 256 then COLOR_256
     else COLOR_DIRECT, \<exists>c \<in> set img. alpha c = 0)"
proof -
  have no: "list_ex (\<lambda>c. alpha c \<noteq> 0 \<and> alpha c \<noteq> 31) img = False"
    using assms unfolding list_ex_iff by blast
  have nc: "card (set (map rgb (filter (\<lambda>c. alpha c \<noteq> 0) img))) = spec_opaque_colors img"
    using nontransparent_eq_opaque [OF assms] by (simp only: nontransparent_colors_code)
  show ?thesis
  proof (cases "\<exists>c \<in> set img. alpha c = 0")
    case True
    then have n: "spec_color_count img = spec_opaque_colors img + 1"
      by (simp add: spec_color_count_def)
    from True have "list_ex (\<lambda>c. alpha c = 0) img = True" by (simp add: list_ex_iff)
    then show ?thesis
      unfolding calc_type_def nc no n Let_def using True by simp
  next
    case False
    then have n: "spec_color_count img = spec_opaque_colors img"
      by (simp add: spec_color_count_def)
    from False have "list_ex (\<lambda>c. alpha c = 0) img = False" by (simp add: list_ex_iff)
    then show ?thesis
      unfolding calc_type_def nc no n Let_def using False by simp
  qed
qed

text \<open>
  Claim C2, as amended.  When some pixel has an alpha strictly between 0 and 31, the type is
  A3I5 if more than eight distinct colours occur among the pixels that are not fully transparent
  (translucent pixels count), and A5I3 otherwise.  When the alphas are 5-bit values, none of them
  is partial, and the distinct opaque colours plus one virtual transparent colour (if a pixel is
  fully transparent) number at most four, the type is the 4-colour indexed format.
\<close>

theorem calc_type_alpha_or_color4:
  "((\<exists>c \<in> set img. 0 < alpha c \<and> alpha c < 31) \<longrightarrow>
      fst (calc_type img u) = (if nontransparent_colors img > 8 then A3I5 else A5I3))
   \<and> ((\<forall>c \<in> set img. 0 \<le> alpha c \<and> alpha c \<le> 31)
        \<and> \<not> (\<exists>c \<in> set img. 0 < alpha c \<and> alpha c < 31)
        \<and> spec_color_count img \<le> 4 \<longrightarrow>
      fst (calc_type img u) = COLOR_4)"
proof (intro conjI impI)
  assume "\<exists>c \<in> set img. 0 < alpha c \<and> alpha c < 31"
  then show "fst (calc_type img u) = (if nontransparent_colors img > 8 then A3I5 else A5I3)"
    by (simp add: calc_type_translucent)
next
  assume a: "(\<forall>c \<in> set img. 0 \<le> alpha c \<and> alpha c \<le> 31)
        \<and> \<not> (\<exists>c \<in> set img. 0 < alpha c \<and> alpha c < 31)
        \<and> spec_color_count img \<le> 4"
  have "\<forall>c \<in> set img. alpha c = 0 \<or> alpha c = 31"
  proof
    fix c assume "c \<in> set img"
    with a have "0 \<le> alpha c" "alpha c \<le> 31" "\<not> (0 < alpha c \<and> alpha c < 31)" by blast+
    then show "alpha c = 0 \<or> alpha c = 31" by linarith
  qed
  then show "fst (calc_type img u) = COLOR_4"
    using a by (simp add: calc_type_binary_alpha)
qed

text \<open>
  Claim C2 as stated counts the opaque colours in the translucent case.  Nine translucent pixels
  of nine colours have a partial alpha and no opaque colour at all, so the claim gives A5I3,
  yet \<open>calc_type\<close> counts nine colours and answers A3I5.
\<close>

theorem calc_type_translucent_counterexample:
 "(0, 0, 0, 15) \<in> set [(0,0,0,15), (1,0,0,15), (2,0,0,15), (3,0,0,15), (4,0,0,15), (5,0,0,15), (6,0,0,15),
       (7,0,0,15), (8,0,0,15)]
  \<and> 0 < alpha (0, 0, 0, 15) \<and> alpha (0, 0, 0, 15) < 31
  \<and> \<not> spec_opaque_colors [(0,0,0,15), (1,0,0,15), (2,0,0,15), (3,0,0,15), (4,0,0,15), (5,0,0,15), (6,0,0,15),
       (7,0,0,15), (8,0,0,15)] > 8
  \<and> fst (calc_type [(0,0,0,15), (1,0,0,15), (2,0,0,15), (3,0,0,15), (4,0,0,15), (5,0,0,15), (6,0,0,15),
       (7,0,0,15), (8,0,0,15)] False) \<noteq> A5I3"
  by (simp add: calc_type_def spec_opaque_colors_code alpha_def rgb_def)

theorem calc_type_alpha_or_color4_witness:
  "fst (calc_type [(1,2,3,31), (1,2,3,7), (0,0,0,0)] False) = A5I3 \<and>
   fst (calc_type [(1,2,3,31), (4,5,6,31), (0,0,0,0), (9,9,9,0)] False) = COLOR_4"
  using calc_type_alpha_or_color4 [of "[(1,2,3,31), (1,2,3,7), (0,0,0,0)]" False]
     calc_type_alpha_or_color4 [of "[(1,2,3,31), (4,5,6,31), (0,0,0,0), (9,9,9,0)]" False]
  by (simp add: spec_color_count_def spec_opaque_colors_code nontransparent_colors_code alpha_def rgb_def)


lemma spec_color_count_opaque_ramp:
  assumes "\<And>i. i < n \<Longrightarrow> alpha (f i) = 31" and "inj_on (\<lambda>i. rgb (f i)) {0..<n}"
  shows "spec_color_count (map f [0..<n]) = n"
proof -
  have "filter (\<lambda>c. alpha c = 31) (map f [0..<n]) = map f [0..<n]"
    using assms(1) by (simp add: filter_map o_def)
  then have "spec_opaque_colors (map f [0..<n]) = card (set (map (\<lambda>i. rgb (f i)) [0..<n]))"
    by (simp add: spec_opaque_colors_code o_def)
  also have "\<dots> = length (map (\<lambda>i. rgb (f i)) [0..<n])"
    using assms(2) by (intro distinct_card) (simp add: distinct_map)
  finally have "spec_opaque_colors (map f [0..<n]) = n" by simp
  moreover have "\<not> (\<exists>c \<in> set (map f [0..<n]). alpha c = 0)"
    using assms(1) by auto
  ultimately show ?thesis by (simp add: spec_color_count_def)
qed

lemma inj_on_mod_div_32:
  "inj_on (\<lambda>i. rgb (int (i mod 32), int (i div 32), 0, 31)) {0..<n}"
proof (rule inj_onI)
  fix i j :: nat
  assume "rgb (int (i mod 32), int (i div 32), 0, 31) = rgb (int (j mod 32), int (j div 32), 0, 31)"
  then have "i mod 32 = j mod 32" "i div 32 = j div 32" by (simp_all add: rgb_def)
  then show "i = j" by (metis div_mult_mod_eq)
qed

text \<open>
  Claim C7, as amended.  For an image whose alphas are all 0 or 31 and which has more than four
  colours (the virtual transparent colour counted), \<open>calc_type\<close> selects the block-compressed
  format whenever the "Uncompressed" flag is not set, whatever the colour count; with the flag
  set it selects 16-colour indexed up to 16 colours, 256-colour indexed up to 256, and 16-bit
  direct colour beyond.
\<close>

theorem calc_type_many_colors:
  "(\<forall>c \<in> set img. alpha c = 0 \<or> alpha c = 31) \<and> spec_color_count img > 4 \<longrightarrow>
     fst (calc_type img uncompressed) =
       (if \<not> uncompressed then COMPRESSED
        else if spec_color_count img \<le> 16 then COLOR_16
        else if spec_color_count img \<le> 256 then COLOR_256
        else COLOR_DIRECT)"
  by (simp add: calc_type_binary_alpha)

theorem calc_type_many_colors_witness:
  "fst (calc_type [(0,0,0,31), (1,0,0,31), (2,0,0,31), (3,0,0,31), (0,0,0,0)] True) = COLOR_16
   \<and> fst (calc_type [(0,0,0,31), (1,0,0,31), (2,0,0,31), (3,0,0,31), (0,0,0,0)] False) = COMPRESSED"
  using calc_type_many_colors [of "[(0,0,0,31), (1,0,0,31), (2,0,0,31), (3,0,0,31), (0,0,0,0)]" True]
    calc_type_many_colors [of "[(0,0,0,31), (1,0,0,31), (2,0,0,31), (3,0,0,31), (0,0,0,0)]" False]
  by (simp add: spec_color_count_def spec_opaque_colors_code alpha_def rgb_def)

text \<open>
  Claim C7 as stated sends every image of more than 256 colours to direct colour.  An opaque
  image of 257 colours without the flag is classified as block-compressed.
\<close>

theorem calc_type_over_256_counterexample:
  "list_all (\<lambda>c. alpha c = 31) (map (\<lambda>i. (int (i mod 32), int (i div 32), 0, 31)) [0..<257])
   \<and> spec_color_count (map (\<lambda>i. (int (i mod 32), int (i div 32), 0, 31)) [0..<257]) = 257
   \<and> spec_many_colors_type 257 False = COLOR_DIRECT
   \<and> fst (calc_type (map (\<lambda>i. (int (i mod 32), int (i div 32), 0, 31)) [0..<257]) False) = COMPRESSED"
proof -
  let ?f = "\<lambda>i::nat. (int (i mod 32), int (i div 32), 0::int, 31::int)"
  have a: "\<And>i. alpha (?f i) = 31" by (simp add: alpha_def)
  have n: "spec_color_count (map ?f [0..<257]) = 257"
    by (rule spec_color_count_opaque_ramp [OF a inj_on_mod_div_32])
  have all: "\<forall>c \<in> set (map ?f [0..<257]). alpha c = 0 \<or> alpha c = 31"
    using a by auto
  have "list_all (\<lambda>c. alpha c = 31) (map ?f [0..<257])"
    using a by (simp add: list_all_iff)
  moreover have "fst (calc_type (map ?f [0..<257]) False) = COMPRESSED"
    unfolding calc_type_binary_alpha [OF all] n by simp
  moreover have "spec_many_colors_type 257 False = COLOR_DIRECT"
    by (simp add: spec_many_colors_type_def)
  ultimately show ?thesis using n by blast
qed

section \<open>Mergeability of faces\<close>

lemma index_less: "x \<in> set xs \<Longrightarrow> index xs x < length xs"
  by (induction xs) auto

lemma nth_index: "x \<in> set xs \<Longrightarrow> xs ! index xs x = x"
  by (induction xs) auto

lemma index_inj: "a \<in> set xs \<Longrightarrow> b \<in> set xs \<Longrightarrow> index xs a = index xs b \<Longrightarrow> a = b"
  by (metis nth_index)

lemma shared_vertices_enum:
  "distinct (shared_vertices f g) \<and> set (shared_vertices f g) = set (vertices f) \<inter> set (vertices g)"
  by (auto simp: shared_vertices_def)

lemma quad_offsets:
  fixes i j :: nat
  assumes "i < 4" "j < 4" "i \<noteq> j"
  shows "((i + 1) mod 4 = j \<or> (j + 1) mod 4 = i) = ((int i - int j) mod 4 \<noteq> 2)"
proof -
  have "i = 0 \<or> i = 1 \<or> i = 2 \<or> i = 3" "j = 0 \<or> j = 1 \<or> j = 2 \<or> j = 3"
    using assms by linarith+
  then show ?thesis using assms(3) by (elim disjE) simp_all
qed

lemma quad_adjacent_iff:
  assumes "length vs = 4" "a \<in> set vs" "b \<in> set vs" "a \<noteq> b"
  shows "edge_adjacent vs a b = (offset_in vs a b \<noteq> 2)"
proof -
  have "index vs a < 4" "index vs b < 4" using assms index_less by metis+
  moreover have "index vs a \<noteq> index vs b" using assms index_inj by metis
  ultimately show ?thesis unfolding edge_adjacent_def offset_in_def assms(1)
    using quad_offsets by simp
qed

text \<open>
  Claim C4, as amended.  For every enumeration \<open>shared\<close> of the common vertices, the faces connect
  if and only if they are distinct objects of the same arity, share at least two vertices, (the
  arity is 3, or the offset of the shared pair is different from 2 in both faces), and the two
  offsets differ.  For quads an offset different from 2 means that the shared pair is
  edge-adjacent: the pair must lie on an edge of both quads, not on a diagonal.
\<close>

theorem can_connect_to_iff:
  assumes "distinct shared" "set shared = set (vertices self) \<inter> set (vertices other)"
  shows "can_connect_with shared self other =
     (fid self \<noteq> fid other \<and> length (vertices self) = length (vertices other)
      \<and> 2 \<le> card (set (vertices self) \<inter> set (vertices other))
      \<and> (length (vertices self) = 3
          \<or> (offset_in (vertices self) (shared ! 0) (shared ! 1) \<noteq> 2
             \<and> offset_in (vertices other) (shared ! 0) (shared ! 1) \<noteq> 2))
      \<and> offset_in (vertices self) (shared ! 0) (shared ! 1)
          \<noteq> offset_in (vertices other) (shared ! 0) (shared ! 1))
    \<and> (length (vertices self) = 4 \<and> length (vertices other) = 4 \<and> 2 \<le> length shared \<longrightarrow>
         (offset_in (vertices self) (shared ! 0) (shared ! 1) \<noteq> 2
             \<and> offset_in (vertices other) (shared ! 0) (shared ! 1) \<noteq> 2)
         = (edge_adjacent (vertices self) (shared ! 0) (shared ! 1)
             \<and> edge_adjacent (vertices other) (shared ! 0) (shared ! 1)))"
proof -
  have card: "card (set (vertices self) \<inter> set (vertices other)) = length shared"
    using assms by (metis distinct_card)
  have 1: "can_connect_with shared self other =
     (fid self \<noteq> fid other \<and> length (vertices self) = length (vertices other)
      \<and> 2 \<le> card (set (vertices self) \<inter> set (vertices other))
      \<and> (length (vertices self) = 3
          \<or> (offset_in (vertices self) (shared ! 0) (shared ! 1) \<noteq> 2
             \<and> offset_in (vertices other) (shared ! 0) (shared ! 1) \<noteq> 2))
      \<and> offset_in (vertices self) (shared ! 0) (shared ! 1)
          \<noteq> offset_in (vertices other) (shared ! 0) (shared ! 1))"
    unfolding can_connect_with_def card Let_def by auto
  have 2: "(offset_in (vertices self) (shared ! 0) (shared ! 1) \<noteq> 2
             \<and> offset_in (vertices other) (shared ! 0) (shared ! 1) \<noteq> 2)
         = (edge_adjacent (vertices self) (shared ! 0) (shared ! 1)
             \<and> edge_adjacent (vertices other) (shared ! 0) (shared ! 1))"
    if len: "length (vertices self) = 4" "length (vertices other) = 4" and sh: "2 \<le> length shared"
  proof -
    have lt: "0 < length shared" "1 < length shared" using sh by linarith+
    then have "shared ! 0 \<in> set shared" "shared ! 1 \<in> set shared"
      by (simp_all only: nth_mem)
    then have mem: "shared ! 0 \<in> set (vertices self)" "shared ! 1 \<in> set (vertices self)"
      "shared ! 0 \<in> set (vertices other)" "shared ! 1 \<in> set (vertices other)"
      using assms(2) by blast+
    have ne: "shared ! 0 \<noteq> shared ! 1"
      using nth_eq_iff_index_eq [OF assms(1) lt] by simp
    show ?thesis
      using quad_adjacent_iff [OF len(1) mem(1,2) ne] quad_adjacent_iff [OF len(2) mem(3,4) ne]
      by simp
  qed
  show ?thesis using 1 2 by blast
qed

text \<open>
  Claim C4 as stated lets two quads connect whose shared pair is a diagonal of one of them
  (it is then not edge-adjacent in both).  The quads \<open>[0, 1, 2, 3]\<close> and \<open>[0, 4, 1, 5]\<close> share
  \<open>0\<close> and \<open>1\<close> with offsets 3 and 2: the stated condition holds, the code answers False.  The
  quads \<open>[0, 1, 2, 3]\<close> and \<open>[2, 1, 4, 5]\<close> share an edge of both and do connect.
\<close>

theorem can_connect_to_counterexample:
  "can_connect_to \<lparr>fid = 0, vertices = [0::nat, 1, 2, 3]\<rparr> \<lparr>fid = 1, vertices = [0, 4, 1, 5]\<rparr> = False
   \<and> shared_vertices \<lparr>fid = 0, vertices = [0::nat, 1, 2, 3]\<rparr> \<lparr>fid = 1, vertices = [0, 4, 1, 5]\<rparr> = [0, 1]
   \<and> spec_can_connect [0, 1] \<lparr>fid = 0, vertices = [0::nat, 1, 2, 3]\<rparr> \<lparr>fid = 1, vertices = [0, 4, 1, 5]\<rparr> = True
   \<and> can_connect_to \<lparr>fid = 0, vertices = [0::nat, 1, 2, 3]\<rparr> \<lparr>fid = 1, vertices = [2, 1, 4, 5]\<rparr> = True
   \<and> edge_adjacent [0::nat, 1, 2, 3] 1 2 \<and> edge_adjacent [2::nat, 1, 4, 5] 1 2"
  by (simp add: can_connect_to_def can_connect_with_def shared_vertices_def spec_can_connect_def
      offset_in_def edge_adjacent_def)

theorem can_connect_to_iff_witness:
  "can_connect_to \<lparr>fid = 0, vertices = [0::nat, 1, 2, 3]\<rparr> \<lparr>fid = 1, vertices = [2, 1, 4, 5]\<rparr>
   \<and> edge_adjacent [0::nat, 1, 2, 3] 1 2 \<and> edge_adjacent [2::nat, 1, 4, 5] 1 2"
proof -
  let ?f = "\<lparr>fid = 0, vertices = [0::nat, 1, 2, 3]\<rparr>"
  let ?g = "\<lparr>fid = 1, vertices = [2::nat, 1, 4, 5]\<rparr>"
  have d: "distinct [1::nat, 2]" by simp
  have s: "set [1::nat, 2] = set (vertices ?f) \<inter> set (vertices ?g)" by auto
  have sh: "shared_vertices ?f ?g = [1, 2]" by (simp add: shared_vertices_def)
  show ?thesis
    unfolding can_connect_to_def sh
    using can_connect_to_iff [OF d s]
    by (simp add: offset_in_def)
qed

section \<open>Assembling segments and pointers\<close>

lemma place_length: "place segs pos = Inr pl \<Longrightarrow> length pl = length segs"
proof (induction segs arbitrary: pos pl)
  case Nil
  then show ?case by simp
next
  case (Cons b rest)
  then show ?case
    by (auto simp: Let_def split: if_splits sum.splits)
qed

lemma place_total:
  "\<forall>s \<in> set (tl segs). byte_align s \<noteq> 0 \<Longrightarrow> \<exists>pl. place segs pos = Inr pl"
proof (induction segs arbitrary: pos)
  case Nil
  then show ?case by simp
next
  case (Cons b rest)
  have al: "(case rest of [] \<Rightarrow> 4 | nxt # _ \<Rightarrow> byte_align nxt) \<noteq> 0"
    using Cons.prems by (cases rest) auto
  have "\<forall>s \<in> set (tl rest). byte_align s \<noteq> 0"
    using Cons.prems by (cases rest) auto
  from Cons.IH [OF this] show ?case using al
    by (simp add: Let_def split: sum.splits) (metis sum.exhaust old.sum.distinct)
qed

text \<open>The alignment that pads segment \<open>i\<close>: that of the next segment, 4 for the last one.\<close>

definition pad_align :: "aligned_bytes list \<Rightarrow> nat \<Rightarrow> int" where
  "pad_align segs i = (if i + 1 < length segs then byte_align (segs ! (i + 1)) else 4)"

lemma place_nth:
  "place segs pos = Inr pl \<Longrightarrow> i < length segs \<Longrightarrow>
     snd (pl ! i) = pos + int (length (concat (map fst (take i pl))))
     \<and> fst (pl ! i) = bytestr (segs ! i)
          @ replicate (nat ((pad_align segs i - snd (pl ! i) - int (length (bytestr (segs ! i))))
                        mod pad_align segs i)) 0"
proof (induction segs arbitrary: pos pl i)
  case Nil
  then show ?case by simp
next
  case (Cons b rest)
  define align where "align = (case rest of [] \<Rightarrow> 4 | nxt # _ \<Rightarrow> byte_align nxt)"
  define padded where "padded = bytestr b
                  @ replicate (nat ((align - pos - int (length (bytestr b))) mod align)) 0"
  from Cons.prems(1) obtain pl' where
    pl': "place rest (pos + int (length padded)) = Inr pl'" and pl: "pl = (padded, pos) # pl'"
    by (auto simp: Let_def align_def padded_def split: if_splits sum.splits)
  have al0: "pad_align (b # rest) 0 = align"
    by (cases rest) (simp_all add: pad_align_def align_def)
  show ?case
  proof (cases i)
    case 0
    then show ?thesis by (simp add: pl padded_def al0)
  next
    case (Suc j)
    then have j: "j < length rest" using Cons.prems(2) by simp
    have al: "pad_align (b # rest) (Suc j) = pad_align rest j"
      by (simp add: pad_align_def)
    from Cons.IH [OF pl' j] show ?thesis
      by (simp add: Suc pl al)
  qed
qed


text \<open>Auxiliary notions for the pointer loop: a pointer whose field lies inside its placed
  source segment and whose value fits; two pointers with disjoint fields; the bytes of a
  field; the value a pointer writes; the lengths and positions of the placed segments; one
  step of the loop.\<close>

definition field_ok :: "(byte list \<times> int) list \<Rightarrow> indexed_ptr \<Rightarrow> bool" where
  "field_ok pl p = (case p of (si, so, di, dofs, nb) \<Rightarrow>
     si < length pl \<and> di < length pl \<and> 0 \<le> so \<and> 0 \<le> nb
     \<and> so + nb \<le> int (length (fst (pl ! si)))
     \<and> 0 \<le> snd (pl ! di) + dofs \<and> snd (pl ! di) + dofs < 256 ^ nat nb)"

definition no_overlap :: "indexed_ptr \<Rightarrow> indexed_ptr \<Rightarrow> bool" where
  "no_overlap p q = (case p of (si, so, di, dofs, nb) \<Rightarrow> case q of (si', so', di', dofs', nb') \<Rightarrow>
     si \<noteq> si' \<or> so + nb \<le> so' \<or> so' + nb' \<le> so)"

fun disjoint_fields :: "indexed_ptr list \<Rightarrow> bool" where
  "disjoint_fields [] = True"
| "disjoint_fields (p # ps) = (list_all (no_overlap p) ps \<and> disjoint_fields ps)"

definition field_of :: "(byte list \<times> int) list \<Rightarrow> indexed_ptr \<Rightarrow> byte list" where
  "field_of pl p = (case p of (si, so, di, dofs, nb) \<Rightarrow>
     slice (fst (pl ! si)) (nat so) (nat (so + nb)))"

definition ptr_value :: "(byte list \<times> int) list \<Rightarrow> indexed_ptr \<Rightarrow> byte list" where
  "ptr_value pl p = (case p of (si, so, di, dofs, nb) \<Rightarrow>
     bytes_of_uint (nat nb) (snd (pl ! di) + dofs))"

definition shape :: "(byte list \<times> int) list \<Rightarrow> (nat \<times> int) list" where
  "shape pl = map (\<lambda>e. (length (fst e), snd e)) pl"

definition write_ptr :: "(byte list \<times> int) list \<Rightarrow> indexed_ptr \<Rightarrow> (byte list \<times> int) list" where
  "write_ptr pl p = (case p of (si, so, di, dofs, nb) \<Rightarrow>
     pl[si := (set_slice (fst (pl ! si)) so (so + nb) (bytes_of_uint (nat nb) (snd (pl ! di) + dofs)),
               snd (pl ! si))])"

lemma set_slice_in_range:
  assumes "0 \<le> a" "a \<le> b" "b \<le> int (length xs)"
  shows "set_slice xs a b new = take (nat a) xs @ new @ drop (nat b) xs"
proof -
  have "slice_bound a (length xs) = nat a" "slice_bound b (length xs) = nat b"
    using assms by (simp_all add: slice_bound_def)
  moreover have "max (nat a) (nat b) = nat b" using assms by simp
  ultimately show ?thesis by (simp add: set_slice_def Let_def)
qed

lemma shape_length: "shape pl = shape pl' \<Longrightarrow> length pl = length pl'"
proof -
  assume "shape pl = shape pl'"
  then have "length (shape pl) = length (shape pl')" by simp
  then show ?thesis by (simp add: shape_def)
qed

lemma shape_nth:
  assumes "shape pl = shape pl'" "i < length pl"
  shows "length (fst (pl ! i)) = length (fst (pl' ! i)) \<and> snd (pl ! i) = snd (pl' ! i)"
proof -
  have l: "i < length pl'" using shape_length [OF assms(1)] assms(2) by simp
  have "shape pl ! i = (length (fst (pl ! i)), snd (pl ! i))"
     "shape pl' ! i = (length (fst (pl' ! i)), snd (pl' ! i))"
    using assms(2) l by (simp_all add: shape_def)
  then show ?thesis using assms(1) by simp
qed

lemma field_ok_shape: "shape pl = shape pl' \<Longrightarrow> field_ok pl p = field_ok pl' p"
proof -
  assume a: "shape pl = shape pl'"
  obtain si so di dofs nb where p: "p = (si, so, di, dofs, nb)" by (cases p) auto
  have l: "length pl = length pl'" by (rule shape_length [OF a])
  show ?thesis
  proof (cases "si < length pl \<and> di < length pl")
    case True
    then show ?thesis
      unfolding field_ok_def p using l shape_nth [OF a, of si] shape_nth [OF a, of di] by simp
  next
    case False
    then show ?thesis unfolding field_ok_def p using l by auto
  qed
qed

lemma shape_write_ptr:
  assumes "field_ok pl p"
  shows "shape (write_ptr pl p) = shape pl"
proof -
  obtain si so di dofs nb where p: "p = (si, so, di, dofs, nb)" by (cases p) auto
  have ok: "si < length pl" "0 \<le> so" "0 \<le> nb" "so + nb \<le> int (length (fst (pl ! si)))"
    using assms by (simp_all add: field_ok_def p)
  have n: "nat (so + nb) = nat so + nat nb" "nat so + nat nb \<le> length (fst (pl ! si))"
    using ok by linarith+
  have "set_slice (fst (pl ! si)) so (so + nb) (bytes_of_uint (nat nb) (snd (pl ! di) + dofs))
      = take (nat so) (fst (pl ! si)) @ bytes_of_uint (nat nb) (snd (pl ! di) + dofs)
          @ drop (nat so + nat nb) (fst (pl ! si))"
    using set_slice_in_range [of so "so + nb" "fst (pl ! si)"] ok n(1) by simp
  then have "length (set_slice (fst (pl ! si)) so (so + nb) (bytes_of_uint (nat nb) (snd (pl ! di) + dofs)))
      = length (fst (pl ! si))"
    using n(2) by (simp add: length_bytes_of_uint)
  then show ?thesis
    unfolding write_ptr_def p shape_def using ok(1)
    by (simp add: map_update list_update_same_conv)
qed

lemma resolve_ptrs_step:
  assumes "field_ok pl p"
  shows "resolve_ptrs (p # ps) pl = resolve_ptrs ps (write_ptr pl p)"
proof -
  obtain si so di dofs nb where p: "p = (si, so, di, dofs, nb)" by (cases p) auto
  show ?thesis using assms
    by (simp add: p field_ok_def from_uint_def write_ptr_def)
qed

lemma resolve_ptrs_shape:
  "\<forall>p \<in> set ips. field_ok pl p \<Longrightarrow> \<exists>fin. resolve_ptrs ips pl = Inr fin \<and> shape fin = shape pl"
proof (induction ips arbitrary: pl)
  case Nil
  then show ?case by simp
next
  case (Cons p ps)
  have sh: "shape (write_ptr pl p) = shape pl" using Cons.prems by (simp add: shape_write_ptr)
  then have "\<forall>q \<in> set ps. field_ok (write_ptr pl p) q"
    using Cons.prems field_ok_shape by (metis list.set_intros(2))
  from Cons.IH [OF this] show ?case
    using Cons.prems sh by (simp add: resolve_ptrs_step)
qed


lemma no_overlap_sym: "no_overlap p q = no_overlap q p"
  unfolding no_overlap_def by (cases p; cases q) auto

lemma slice_take_drop: "slice xs a b = take (b - a) (drop a xs)"
  by (simp add: slice_def drop_take)

lemma slice_written:
  assumes "a + k \<le> length xs" "length new = k"
  shows "slice (take a xs @ new @ drop (a + k) xs) a (a + k) = new"
  using assms by (simp add: slice_take_drop)

lemma slice_beside:
  assumes "a + k \<le> length xs" "length new = k" "b + m \<le> a \<or> a + k \<le> b"
  shows "slice (take a xs @ new @ drop (a + k) xs) b (b + m) = slice xs b (b + m)"
proof (cases "b + m \<le> a")
  case True
  then have "take (b + m) (take a xs @ new @ drop (a + k) xs) = take (b + m) xs"
    using assms(1) by simp
  then show ?thesis by (simp only: slice_def)
next
  case False
  then have ge: "a + k \<le> b" using assms(3) by simp
  have "drop b (take a xs @ new @ drop (a + k) xs) = drop (b - (a + k)) (drop (a + k) xs)"
    using ge assms(1,2) by simp
  also have "\<dots> = drop b xs" using ge by simp
  finally show ?thesis by (simp only: slice_take_drop)
qed

lemma write_ptr_nth:
  assumes "field_ok pl (si, so, di, dofs, nb)"
  shows "fst (write_ptr pl (si, so, di, dofs, nb) ! si)
      = take (nat so) (fst (pl ! si)) @ bytes_of_uint (nat nb) (snd (pl ! di) + dofs)
          @ drop (nat so + nat nb) (fst (pl ! si))"
    and "nat so + nat nb \<le> length (fst (pl ! si))" and "nat (so + nb) = nat so + nat nb"
proof -
  have ok: "si < length pl" "0 \<le> so" "0 \<le> nb" "so + nb \<le> int (length (fst (pl ! si)))"
    using assms by (simp_all add: field_ok_def)
  show n: "nat (so + nb) = nat so + nat nb" "nat so + nat nb \<le> length (fst (pl ! si))"
    using ok by linarith+
  show "fst (write_ptr pl (si, so, di, dofs, nb) ! si)
      = take (nat so) (fst (pl ! si)) @ bytes_of_uint (nat nb) (snd (pl ! di) + dofs)
          @ drop (nat so + nat nb) (fst (pl ! si))"
    using set_slice_in_range [of so "so + nb" "fst (pl ! si)"] ok n(1)
    by (simp add: write_ptr_def)
qed

lemma write_ptr_field:
  assumes "field_ok pl p"
  shows "field_of (write_ptr pl p) p = ptr_value pl p"
proof -
  obtain si so di dofs nb where p: "p = (si, so, di, dofs, nb)" by (cases p) auto
  note w = write_ptr_nth [OF assms [unfolded p]]
  show ?thesis
    unfolding p field_of_def ptr_value_def prod.case w(1) w(3)
    by (rule slice_written [OF w(2)]) (simp add: length_bytes_of_uint)
qed

lemma write_ptr_other:
  assumes "field_ok pl p" "field_ok pl q" "no_overlap p q"
  shows "field_of (write_ptr pl p) q = field_of pl q"
proof -
  obtain si so di dofs nb where p: "p = (si, so, di, dofs, nb)" by (cases p) auto
  obtain si' so' di' dofs' nb' where q: "q = (si', so', di', dofs', nb')" by (cases q) auto
  note w = write_ptr_nth [OF assms(1) [unfolded p]]
  have okq: "0 \<le> so'" "0 \<le> nb'" using assms(2) by (simp_all add: field_ok_def q)
  show ?thesis
  proof (cases "si = si'")
    case False
    then have "write_ptr pl p ! si' = pl ! si'" by (simp add: write_ptr_def p)
    then show ?thesis by (simp add: field_of_def q)
  next
    case True
    then have "so + nb \<le> so' \<or> so' + nb' \<le> so"
      using assms(3) by (simp add: no_overlap_def p q)
    then have d: "nat so' + nat nb' \<le> nat so \<or> nat so + nat nb \<le> nat so'"
      using okq w(3) by linarith
    have n': "nat (so' + nb') = nat so' + nat nb'" using okq by linarith
    show ?thesis
      unfolding q field_of_def prod.case True [symmetric] p w(1) n'
      by (rule slice_beside [OF w(2) _ d]) (simp add: length_bytes_of_uint)
  qed
qed

lemma ptr_value_shape: "shape pl = shape pl' \<Longrightarrow> field_ok pl p \<Longrightarrow> ptr_value pl p = ptr_value pl' p"
proof -
  assume a: "shape pl = shape pl'" "field_ok pl p"
  obtain si so di dofs nb where p: "p = (si, so, di, dofs, nb)" by (cases p) auto
  have "di < length pl" using a(2) by (simp add: field_ok_def p)
  from shape_nth [OF a(1) this] show ?thesis by (simp add: ptr_value_def p)
qed

lemma resolve_ptrs_preserves:
  "\<forall>q \<in> set ps. field_ok pl q \<and> no_overlap q p \<Longrightarrow> field_ok pl p \<Longrightarrow>
     resolve_ptrs ps pl = Inr fin \<Longrightarrow> field_of fin p = field_of pl p"
proof (induction ps arbitrary: pl)
  case Nil
  then show ?case by simp
next
  case (Cons q qs)
  have q: "field_ok pl q" "no_overlap q p" using Cons.prems(1) by simp_all
  have sh: "shape (write_ptr pl q) = shape pl" using q(1) by (rule shape_write_ptr)
  have 1: "\<forall>r \<in> set qs. field_ok (write_ptr pl q) r \<and> no_overlap r p"
    using Cons.prems(1) field_ok_shape [OF sh] by simp
  have 2: "field_ok (write_ptr pl q) p" using Cons.prems(2) field_ok_shape [OF sh] by simp
  have 3: "resolve_ptrs qs (write_ptr pl q) = Inr fin"
    using Cons.prems(3) q(1) by (simp add: resolve_ptrs_step)
  from Cons.IH [OF 1 2 3] show ?case
    using write_ptr_other [OF q(1) Cons.prems(2) q(2)] by simp
qed

lemma resolve_ptrs_fields:
  "\<forall>p \<in> set ips. field_ok pl p \<Longrightarrow> disjoint_fields ips \<Longrightarrow>
     resolve_ptrs ips pl = Inr fin \<Longrightarrow> \<forall>p \<in> set ips. field_of fin p = ptr_value pl p"
proof (induction ips arbitrary: pl)
  case Nil
  then show ?case by simp
next
  case (Cons p ps)
  have p: "field_ok pl p" using Cons.prems(1) by simp
  have sh: "shape (write_ptr pl p) = shape pl" using p by (rule shape_write_ptr)
  have 1: "\<forall>q \<in> set ps. field_ok (write_ptr pl p) q"
    using Cons.prems(1) field_ok_shape [OF sh] by simp
  have 2: "disjoint_fields ps" using Cons.prems(2) by simp
  have 3: "resolve_ptrs ps (write_ptr pl p) = Inr fin"
    using Cons.prems(3) p by (simp add: resolve_ptrs_step)
  have tail: "\<forall>q \<in> set ps. field_of fin q = ptr_value pl q"
  proof
    fix q assume q: "q \<in> set ps"
    have "field_of fin q = ptr_value (write_ptr pl p) q" using Cons.IH [OF 1 2 3] q by blast
    also have "\<dots> = ptr_value pl q" using ptr_value_shape [OF sh] 1 q by blast
    finally show "field_of fin q = ptr_value pl q" .
  qed
  have "\<forall>q \<in> set ps. field_ok (write_ptr pl p) q \<and> no_overlap q p"
    using 1 Cons.prems(2) by (simp add: list_all_iff no_overlap_sym [of _ p])
  moreover have "field_ok (write_ptr pl p) p" using p field_ok_shape [OF sh] by simp
  ultimately have "field_of fin p = field_of (write_ptr pl p) p"
    using 3 by (rule resolve_ptrs_preserves)
  then have "field_of fin p = ptr_value pl p" using write_ptr_field [OF p] by simp
  then show ?case using tail by simp
qed


text \<open>The same conditions on the input, and the statement that a pointer is resolved in the
  assembled buffer.\<close>

definition ptr_in_range :: "aligned_bytes list \<Rightarrow> indexed_ptr \<Rightarrow> bool" where
  "ptr_in_range bytestrs p = (case p of (si, so, di, dofs, nb) \<Rightarrow>
     0 \<le> so \<and> 0 \<le> nb \<and> so + nb \<le> int (length (bytestr (bytestrs ! si)))
     \<and> 0 \<le> positions bytestrs ! di + dofs \<and> positions bytestrs ! di + dofs < 256 ^ nat nb)"

definition resolved_in :: "aligned_bytes list \<Rightarrow> byte list \<Rightarrow> indexed_ptr \<Rightarrow> bool" where
  "resolved_in bytestrs out p = (case p of (si, so, di, dofs, nb) \<Rightarrow>
     slice out (nat (positions bytestrs ! si + so)) (nat (positions bytestrs ! si + so + nb))
       = bytes_of_uint (nat nb) (positions bytestrs ! di + dofs))"

lemma index_of_obj_less: "index_of_obj segs r = Inr i \<Longrightarrow> i < length segs"
  by (induction segs arbitrary: i) (auto split: if_splits sum.splits)

lemma indexed_ptrs_less:
  "indexed_ptrs segs ptrs = Inr ips \<Longrightarrow> (si, so, di, dofs, nb) \<in> set ips \<Longrightarrow>
     si < length segs \<and> di < length segs"
  by (induction ptrs arbitrary: ips) (auto split: sum.splits dest: index_of_obj_less)

lemma concat_slice:
  assumes "i < length xss" "a + k \<le> length (xss ! i)"
  shows "slice (concat xss) (length (concat (take i xss)) + a) (length (concat (take i xss)) + a + k)
     = slice (xss ! i) a (a + k)"
proof -
  have "concat xss = concat (take i xss) @ xss ! i @ concat (drop (Suc i) xss)"
    using assms(1) by (metis concat.simps(2) concat_append id_take_nth_drop)
  then show ?thesis using assms(2) by (simp add: slice_take_drop)
qed

lemma length_concat_take_shape:
  "length (concat (map fst (take i pl))) = sum_list (map fst (take i (shape pl)))"
  by (simp add: shape_def length_concat take_map o_def)

lemma length_concat_shape:
  "length (concat (map fst pl)) = sum_list (map fst (shape pl))"
  by (simp add: shape_def length_concat o_def)

lemma pad_to_multiple:
  fixes e a :: int
  assumes "0 < a"
  defines "m \<equiv> (a - e) mod a"
  shows "0 \<le> m" "m < a" "a dvd e + m"
proof -
  show "0 \<le> m" "m < a" using assms by simp_all
  have "(e + m) mod a = (e + (a - e)) mod a" unfolding m_def by (simp add: mod_add_right_eq)
  then show "a dvd e + m" by (simp add: dvd_eq_mod_eq_0)
qed


text \<open>The end of segment \<open>i\<close> before padding, and the start of what follows it.\<close>

definition seg_end :: "aligned_bytes list \<Rightarrow> nat \<Rightarrow> int" where
  "seg_end bytestrs i = positions bytestrs ! i + int (length (bytestr (bytestrs ! i)))"

definition next_start :: "aligned_bytes list \<Rightarrow> byte list \<Rightarrow> nat \<Rightarrow> int" where
  "next_start bytestrs out i =
     (if i + 1 < length bytestrs then positions bytestrs ! (i + 1) else int (length out))"

text \<open>
  Claim C8.  Take segments whose alignments (from the second segment on) are positive, and
  pointers between segments of the list whose source fields lie inside their source segments,
  do not overlap, and whose values fit their widths.  Then \<open>assemble\<close> returns a buffer in which
  the first segment starts at 0, every segment is followed by the least padding that makes the
  start of the next segment a multiple of the next segment's alignment (for the last segment:
  that makes the total length a multiple of 4), and every pointer's source field holds the
  final position of its destination segment plus the destination offset, little-endian in the
  pointer's width: all segments are placed before any pointer is resolved.
\<close>

theorem assemble_layout:
  assumes aligns: "\<forall>s \<in> set (tl bytestrs). 0 < byte_align s"
    and ips: "indexed_ptrs bytestrs ptrs = Inr ips"
    and rng: "\<forall>p \<in> set ips. ptr_in_range bytestrs p"
    and disj: "disjoint_fields ips"
  shows "\<exists>out. assemble bytestrs ptrs = Inr out
     \<and> length (positions bytestrs) = length bytestrs
     \<and> (bytestrs \<noteq> [] \<longrightarrow> positions bytestrs ! 0 = 0)
     \<and> (\<forall>i < length bytestrs.
           seg_end bytestrs i \<le> next_start bytestrs out i
           \<and> next_start bytestrs out i < seg_end bytestrs i + pad_align bytestrs i
           \<and> pad_align bytestrs i dvd next_start bytestrs out i)
     \<and> (\<forall>p \<in> set ips. resolved_in bytestrs out p)"
proof -
  let ?n = "length bytestrs"
  have "\<forall>s \<in> set (tl bytestrs). byte_align s \<noteq> 0" using aligns by fastforce
  then obtain pl where pl: "place bytestrs 0 = Inr pl" using place_total by blast
  have len: "length pl = ?n" using pl by (rule place_length)
  have pos: "positions bytestrs = map snd pl" by (simp add: positions_def pl)
  define P where "P i = int (length (concat (map fst (take i pl))))" for i
  have posP: "positions bytestrs ! i = P i" if "i < ?n" for i
    using place_nth [OF pl that] that len by (simp add: pos P_def)
  have pa: "0 < pad_align bytestrs i" if "i < ?n" for i
  proof (cases "i + 1 < ?n")
    case True
    then have "bytestrs ! (i + 1) \<in> set (tl bytestrs)"
      by (metis Suc_eq_plus1 length_tl less_diff_conv nth_mem nth_tl)
    then show ?thesis using aligns True by (simp add: pad_align_def)
  next
    case False
    then show ?thesis by (simp add: pad_align_def)
  qed
  have fst_pl: "fst (pl ! i) = bytestr (bytestrs ! i)
      @ replicate (nat ((pad_align bytestrs i - seg_end bytestrs i) mod pad_align bytestrs i)) 0"
    if "i < ?n" for i
  proof -
    have e: "pad_align bytestrs i - snd (pl ! i) - int (length (bytestr (bytestrs ! i)))
        = pad_align bytestrs i - seg_end bytestrs i"
      using that len by (simp add: seg_end_def pos)
    have "fst (pl ! i) = bytestr (bytestrs ! i)
          @ replicate (nat ((pad_align bytestrs i - snd (pl ! i) - int (length (bytestr (bytestrs ! i))))
                        mod pad_align bytestrs i)) 0"
      using place_nth [OF pl that] by blast
    then show ?thesis by (simp only: e)
  qed
  have PSuc: "P (Suc i) = seg_end bytestrs i
      + (pad_align bytestrs i - seg_end bytestrs i) mod pad_align bytestrs i" if "i < ?n" for i
  proof -
    have "take (Suc i) pl = take i pl @ [pl ! i]" using that len by (simp add: take_Suc_conv_app_nth)
    then have "P (Suc i) = P i + int (length (fst (pl ! i)))" by (simp add: P_def)
    also have "\<dots> = seg_end bytestrs i
      + (pad_align bytestrs i - seg_end bytestrs i) mod pad_align bytestrs i"
      using pa [OF that] by (simp add: fst_pl [OF that] seg_end_def posP [OF that])
    finally show ?thesis .
  qed
  have ok: "field_ok pl p" if p: "p \<in> set ips" for p
  proof -
    obtain si so di dofs nb where pe: "p = (si, so, di, dofs, nb)" by (cases p) auto
    have lt: "si < ?n" "di < ?n" using indexed_ptrs_less [OF ips p [unfolded pe]] by simp_all
    have r: "0 \<le> so" "0 \<le> nb" "so + nb \<le> int (length (bytestr (bytestrs ! si)))"
      "0 \<le> positions bytestrs ! di + dofs" "positions bytestrs ! di + dofs < 256 ^ nat nb"
      using rng p by (auto simp: ptr_in_range_def pe)
    have "length (bytestr (bytestrs ! si)) \<le> length (fst (pl ! si))"
      by (simp add: fst_pl [OF lt(1)])
    then show ?thesis
      unfolding field_ok_def pe using lt r len by (simp add: pos)
  qed
  then obtain fin where fin: "resolve_ptrs ips pl = Inr fin" and sh: "shape fin = shape pl"
    using resolve_ptrs_shape by blast
  define out where "out = concat (map fst fin)"
  have asm: "assemble bytestrs ptrs = Inr out"
    by (simp add: assemble_def ips pl fin out_def)
  have Pfin: "P i = int (length (concat (map fst (take i fin))))" for i
    by (simp only: P_def length_concat_take_shape sh)
  have lfin: "length fin = ?n" using shape_length [OF sh] len by simp
  have outP: "int (length out) = P ?n"
    using lfin by (simp add: Pfin out_def)
  have nxt: "next_start bytestrs out i = P (Suc i)" if "i < ?n" for i
  proof (cases "i + 1 < ?n")
    case True
    then show ?thesis by (simp add: next_start_def posP)
  next
    case False
    then have "Suc i = ?n" using that by simp
    then show ?thesis using False by (simp add: next_start_def outP)
  qed
  have layout: "seg_end bytestrs i \<le> next_start bytestrs out i
           \<and> next_start bytestrs out i < seg_end bytestrs i + pad_align bytestrs i
           \<and> pad_align bytestrs i dvd next_start bytestrs out i" if "i < ?n" for i
    unfolding nxt [OF that] PSuc [OF that]
    using pad_to_multiple [OF pa [OF that], of "seg_end bytestrs i"] by simp
  have res: "resolved_in bytestrs out p" if p: "p \<in> set ips" for p
  proof -
    obtain si so di dofs nb where pe: "p = (si, so, di, dofs, nb)" by (cases p) auto
    have lt: "si < ?n" "di < ?n" using indexed_ptrs_less [OF ips p [unfolded pe]] by simp_all
    have f: "field_ok pl p" by (rule ok [OF p])
    have r: "0 \<le> so" "0 \<le> nb" "so + nb \<le> int (length (fst (pl ! si)))"
      using f by (simp_all add: field_ok_def pe)
    have "length (fst (fin ! si)) = length (fst (pl ! si))"
      using shape_nth [OF sh, of si] lt lfin by simp
    then have in_seg: "nat so + nat nb \<le> length (fst (fin ! si))" using r by linarith
    have fld: "field_of fin p = ptr_value pl p"
      using resolve_ptrs_fields [OF _ disj fin] ok p by blast
    have P0: "0 \<le> P si" by (simp add: P_def)
    have a: "nat (positions bytestrs ! si + so) = length (concat (take si (map fst fin))) + nat so"
      using r(1) by (simp add: posP [OF lt(1)] Pfin take_map nat_add_distrib)
    have b: "nat (positions bytestrs ! si + so + nb)
        = length (concat (take si (map fst fin))) + nat so + nat nb"
      using r(1,2) by (simp add: posP [OF lt(1)] Pfin take_map nat_add_distrib)
    have "slice out (nat (positions bytestrs ! si + so)) (nat (positions bytestrs ! si + so + nb))
        = slice (fst (fin ! si)) (nat so) (nat so + nat nb)"
      unfolding a b out_def
      using concat_slice [of si "map fst fin" "nat so" "nat nb"] lt(1) lfin in_seg by simp
    also have "\<dots> = field_of fin p"
      using r(1,2) by (simp add: field_of_def pe nat_add_distrib)
    also have "\<dots> = bytes_of_uint (nat nb) (positions bytestrs ! di + dofs)"
      unfolding fld using lt(2) len by (simp add: ptr_value_def pe pos)
    finally show ?thesis by (simp add: resolved_in_def pe)
  qed
  have "length (positions bytestrs) = ?n" by (simp add: pos len)
  moreover have "bytestrs \<noteq> [] \<longrightarrow> positions bytestrs ! 0 = 0"
    using posP [of 0] by (simp add: P_def)
  ultimately show ?thesis using asm layout res by blast
qed


theorem assemble_layout_witness:
  "\<exists>out. assemble
       [\<lparr>oid = 0, bytestr = [1, 2, 3, 4, 5], byte_align = 4\<rparr>,
        \<lparr>oid = 1, bytestr = [0, 0, 7], byte_align = 8\<rparr>,
        \<lparr>oid = 2, bytestr = [9], byte_align = 2\<rparr>]
       [\<lparr>src_bytestr = 1, src_offset = 0, dest_bytestr = 2, dest_offset = 0, num_bytes = 2\<rparr>]
      = Inr out
    \<and> out = [1, 2, 3, 4, 5, 0, 0, 0, 12, 0, 7, 0, 9, 0, 0, 0]
    \<and> resolved_in
       [\<lparr>oid = 0, bytestr = [1, 2, 3, 4, 5], byte_align = 4\<rparr>,
        \<lparr>oid = 1, bytestr = [0, 0, 7], byte_align = 8\<rparr>,
        \<lparr>oid = 2, bytestr = [9], byte_align = 2\<rparr>] out (1, 0, 2, 0, 2)"
proof -
  let ?S = "[\<lparr>oid = 0, bytestr = [1, 2, 3, 4, 5], byte_align = 4\<rparr>,
        \<lparr>oid = 1, bytestr = [0, 0, 7], byte_align = 8\<rparr>,
        \<lparr>oid = 2, bytestr = [9], byte_align = 2\<rparr>]"
  let ?P = "[\<lparr>src_bytestr = 1, src_offset = 0, dest_bytestr = 2, dest_offset = 0, num_bytes = 2\<rparr>]"
  have a: "\<forall>s \<in> set (tl ?S). 0 < byte_align s" by simp
  have i: "indexed_ptrs ?S ?P = Inr [(1, 0, 2, 0, 2)]" by simp
  have pos: "positions ?S = [0, 8, 12]" by (simp add: positions_def Let_def)
  have r: "\<forall>p \<in> set [(1, 0, 2, 0, 2)]. ptr_in_range ?S p"
    unfolding ptr_in_range_def pos by simp
  have d: "disjoint_fields [(1, 0, 2, 0, 2)]" by simp
  obtain out where out: "assemble ?S ?P = Inr out" "resolved_in ?S out (1, 0, 2, 0, 2)"
    using assemble_layout [OF a i r d] by auto
  have "assemble ?S ?P = Inr [1, 2, 3, 4, 5, 0, 0, 0, 12, 0, 7, 0, 9, 0, 0, 0]"
    by (simp add: assemble_def Let_def from_uint_def set_slice_def slice_bound_def
        eval_nat_numeral)
  with out show ?thesis by simp
qed

section \<open>Unknown and skipped opcodes\<close>

text \<open>The fixed-width skip opcodes with their widths, and the enumerated opcodes.\<close>

definition skip_width :: "nat \<Rightarrow> nat option" where
  "skip_width cmd =
     (if cmd = 0x34 then Some 128
      else if cmd = 0x16 \<or> cmd = 0x18 then Some 64
      else if cmd = 0x17 \<or> cmd = 0x19 then Some 48
      else if cmd = 0x1a then Some 36
      else if cmd = 0x1b \<or> cmd = 0x1c \<or> cmd = 0x70 then Some 12
      else if cmd = 0x71 then Some 8
      else if cmd \<in> {0x10, 0x12, 0x13, 0x29, 0x2a, 0x2b, 0x30, 0x31, 0x32, 0x33, 0x50, 0x60, 0x72}
      then Some 4
      else if cmd \<in> {0x00, 0x11, 0x15, 0x41} then Some 0
      else None)"

definition known_opcode :: "nat \<Rightarrow> bool" where
  "known_opcode cmd =
     (cmd \<in> {0x40, 0x14, 0x20, 0x21, 0x22, 0x23, 0x24, 0x25, 0x26, 0x27, 0x28}
      \<or> skip_width cmd \<noteq> None)"

text \<open>\<open>reaches s s'\<close>: the loop gets from state \<open>s\<close> to state \<open>s'\<close> by complete words.\<close>

inductive reaches :: "'c codec \<Rightarrow> byte list \<Rightarrow> nat list \<Rightarrow> byte list \<Rightarrow> int
    \<Rightarrow> 'c dl_state \<Rightarrow> 'c dl_state \<Rightarrow> bool"
  for C bmd_bytes transform_ids data_bytes material_id where
  reaches_refl: "reaches C bmd_bytes transform_ids data_bytes material_id s s"
| reaches_word: "offset s < length data_bytes \<Longrightarrow>
     exec_cmds C bmd_bytes transform_ids data_bytes material_id
        (to_uint_list C data_bytes (offset s) 1 4) (s\<lparr>offset := offset s + 4\<rparr>) = Inr s' \<Longrightarrow>
     reaches C bmd_bytes transform_ids data_bytes material_id s' s'' \<Longrightarrow>
     reaches C bmd_bytes transform_ids data_bytes material_id s s''"

lemma exec_cmd_unknown:
  "\<not> known_opcode cmd \<Longrightarrow>
     exec_cmd C bmd_bytes tids data mid cmd s = Inl (UnknownGXCommand cmd (offset s))"
  unfolding known_opcode_def skip_width_def exec_cmd_def
  by (simp split: if_splits)

lemma skip_width_cases:
  assumes "skip_width cmd = Some w"
  shows "cmd = 0x34 \<and> w = 128 \<or> (cmd = 0x16 \<or> cmd = 0x18) \<and> w = 64
     \<or> (cmd = 0x17 \<or> cmd = 0x19) \<and> w = 48 \<or> cmd = 0x1a \<and> w = 36
     \<or> (cmd = 0x1b \<or> cmd = 0x1c \<or> cmd = 0x70) \<and> w = 12 \<or> cmd = 0x71 \<and> w = 8
     \<or> cmd \<in> {0x10, 0x12, 0x13, 0x29, 0x2a, 0x2b, 0x30, 0x31, 0x32, 0x33, 0x50, 0x60, 0x72} \<and> w = 4
     \<or> cmd \<in> {0x00, 0x11, 0x15, 0x41} \<and> w = 0"
  using assms unfolding skip_width_def by (simp split: if_splits)

lemma exec_cmd_skip:
  assumes "skip_width cmd = Some w"
  shows "exec_cmd C bmd_bytes tids data mid cmd s = Inr (s\<lparr>offset := offset s + w\<rparr>)"
proof -
  have "cmd \<in> {0x34, 0x16, 0x18, 0x17, 0x19, 0x1a, 0x1b, 0x1c, 0x70, 0x71, 0x10, 0x12, 0x13, 0x29,
      0x2a, 0x2b, 0x30, 0x31, 0x32, 0x33, 0x50, 0x60, 0x72, 0x00, 0x11, 0x15, 0x41}"
    using skip_width_cases [OF assms] by auto
  then show ?thesis using assms
    by (elim insertE emptyE) (simp_all add: exec_cmd_def skip_width_def)
qed

lemma exec_cmds_append:
  "exec_cmds C bmd_bytes tids data mid pre s = Inr s1 \<Longrightarrow>
     exec_cmds C bmd_bytes tids data mid (pre @ cmds) s = exec_cmds C bmd_bytes tids data mid cmds s1"
  by (induction pre arbitrary: s) (auto split: sum.splits)

lemma run_display_list_reaches:
  "reaches C bmd_bytes tids data mid s s' \<Longrightarrow>
     run_display_list C bmd_bytes tids data mid s = run_display_list C bmd_bytes tids data mid s'"
proof (induction rule: reaches.induct)
  case (reaches_refl s)
  show ?case ..
next
  case (reaches_word s s' s'')
  have "run_display_list C bmd_bytes tids data mid s = run_display_list C bmd_bytes tids data mid s'"
    using reaches_word.hyps(1,2) by (subst run_display_list.simps) simp
  then show ?case using reaches_word.IH by simp
qed

text \<open>
  Claim C9.  Whenever the interpreter, after any number of complete words, reaches a word in
  which the commands before \<open>cmd\<close> run without error and \<open>cmd\<close> is outside the enumerated
  opcodes, \<open>import_display_list\<close> as a whole fails with the unknown-command error at the current
  offset: no vertices or faces are returned.  A recognised skip opcode changes nothing but the
  offset, which it advances by its width, one of 128, 64, 48, 36, 12, 8, 4 and 0.
\<close>

theorem unknown_opcode_fatal:
  "(reaches C bmd_bytes (dl_transform_ids C bmd_bytes displist_bytes)
       (dl_data_bytes bmd_bytes displist_bytes) material_id init_state s
    \<and> offset s < length (dl_data_bytes bmd_bytes displist_bytes)
    \<and> to_uint_list C (dl_data_bytes bmd_bytes displist_bytes) (offset s) 1 4 = pre @ cmd # post
    \<and> exec_cmds C bmd_bytes (dl_transform_ids C bmd_bytes displist_bytes)
          (dl_data_bytes bmd_bytes displist_bytes) material_id pre (s\<lparr>offset := offset s + 4\<rparr>)
        = Inr s1
    \<and> \<not> known_opcode cmd
    \<longrightarrow> import_display_list C bmd_bytes displist_bytes material_id
          = Inl (UnknownGXCommand cmd (offset s1)))
   \<and> (skip_width cmd' = Some w \<longrightarrow>
         w \<in> {128, 64, 48, 36, 12, 8, 4, 0}
         \<and> exec_cmd C bmd_bytes tids data_bytes material_id cmd' s0
             = Inr (s0\<lparr>offset := offset s0 + w\<rparr>))"
proof (intro conjI impI)
  let ?tids = "dl_transform_ids C bmd_bytes displist_bytes"
  let ?data = "dl_data_bytes bmd_bytes displist_bytes"
  assume a: "reaches C bmd_bytes ?tids ?data material_id init_state s
    \<and> offset s < length ?data
    \<and> to_uint_list C ?data (offset s) 1 4 = pre @ cmd # post
    \<and> exec_cmds C bmd_bytes ?tids ?data material_id pre (s\<lparr>offset := offset s + 4\<rparr>) = Inr s1
    \<and> \<not> known_opcode cmd"
  then have "exec_cmds C bmd_bytes ?tids ?data material_id (pre @ cmd # post)
      (s\<lparr>offset := offset s + 4\<rparr>) = Inl (UnknownGXCommand cmd (offset s1))"
    by (simp add: exec_cmds_append exec_cmd_unknown)
  then have "run_display_list C bmd_bytes ?tids ?data material_id s
      = Inl (UnknownGXCommand cmd (offset s1))"
    using a by (subst run_display_list.simps) simp
  then have "run_display_list C bmd_bytes ?tids ?data material_id init_state
      = Inl (UnknownGXCommand cmd (offset s1))"
    using a run_display_list_reaches by metis
  then show "import_display_list C bmd_bytes displist_bytes material_id
      = Inl (UnknownGXCommand cmd (offset s1))"
    by (simp add: import_display_list_def)
next
  assume "skip_width cmd' = Some w"
  then show "w \<in> {128, 64, 48, 36, 12, 8, 4, 0}"
    by (auto simp: skip_width_def split: if_splits)
next
  assume "skip_width cmd' = Some w"
  then show "exec_cmd C bmd_bytes tids data_bytes material_id cmd' s0
             = Inr (s0\<lparr>offset := offset s0 + w\<rparr>)"
    by (rule exec_cmd_skip)
qed


text \<open>Modelled from the spec: \<open>to_uint_list\<close> is missing from the sources; the specification
  has each word of the stream hold one-byte opcodes, so the helper reads \<open>count\<close> consecutive
  unsigned little-endian integers of \<open>bytes_per_elem\<close> bytes.  It serves as a concrete
  codec, together with dummy vector and colour decoders.\<close>

definition spec_to_uint_list :: "byte list \<Rightarrow> nat \<Rightarrow> nat \<Rightarrow> nat \<Rightarrow> nat list" where
  "spec_to_uint_list bs off bytes_per_elem count =
     map (\<lambda>i. nat (to_uint bs (off + i * bytes_per_elem) bytes_per_elem)) [0..<count]"

definition plain_codec :: "unit codec" where
  "plain_codec = \<lparr>to_uint_list = spec_to_uint_list,
     to_vec = (\<lambda>bs off n k p. replicate k 0), to_vecb = (\<lambda>bs off n k p. replicate k 0),
     to_fix = (\<lambda>bs off n p. 0), uint16_to_color = (\<lambda>v g. ())\<rparr>"

theorem unknown_opcode_fatal_witness:
  "import_display_list plain_codec
      [0, 0, 0, 0, 0, 0, 0, 0, 4, 0, 0, 0, 16, 0, 0, 0, 0x71, 0xEE, 0, 0]
      [0, 0, 0, 0, 0, 0, 0, 0] 0
     = Inl (UnknownGXCommand 0xEE 12)
   \<and> exec_cmd plain_codec
      [0, 0, 0, 0, 0, 0, 0, 0, 4, 0, 0, 0, 16, 0, 0, 0, 0x71, 0xEE, 0, 0] [] [] 0 0x71 init_state
     = Inr (init_state\<lparr>offset := 8\<rparr>)"
proof -
  let ?bmd = "[0, 0, 0, 0, 0, 0, 0, 0, 4, 0, 0, 0, 16, 0, 0, 0, 0x71, 0xEE, 0, 0] :: byte list"
  let ?dl = "[0, 0, 0, 0, 0, 0, 0, 0] :: byte list"
  have hdr: "dl_header ?bmd ?dl = [0, 0, 0, 0, 0, 0, 0, 0, 4, 0, 0, 0, 16, 0, 0, 0]"
    by (simp add: dl_header_def get_n_bytes_def slice_def to_uint_def)
  have data: "dl_data_bytes ?bmd ?dl = [0x71, 0xEE, 0, 0]"
    unfolding dl_data_bytes_def hdr Let_def
    by (simp add: get_n_bytes_def slice_def to_uint_def)
  have tids: "dl_transform_ids plain_codec ?bmd ?dl = []"
    unfolding dl_transform_ids_def hdr Let_def
    by (simp add: plain_codec_def spec_to_uint_list_def to_uint_def slice_def)
  have word: "to_uint_list plain_codec [0x71, 0xEE, 0, 0] (offset (init_state :: unit dl_state)) 1 4
      = [0x71] @ 0xEE # [0, 0]"
    by (simp add: plain_codec_def spec_to_uint_list_def to_uint_def slice_def init_state_def
        upt_conv_Cons)
  have pre: "exec_cmds plain_codec ?bmd [] [0x71, 0xEE, 0, 0] 0 [0x71]
      ((init_state :: unit dl_state)\<lparr>offset := offset (init_state :: unit dl_state) + 4\<rparr>)
      = Inr (init_state\<lparr>offset := 12\<rparr>)"
    by (simp add: exec_cmd_def init_state_def)
  have unk: "\<not> known_opcode 0xEE"
    by (simp add: known_opcode_def skip_width_def)
  have lt: "offset (init_state :: unit dl_state) < length [0x71, 0xEE, 0, 0 :: byte]"
    by (simp add: init_state_def)
  have sk: "skip_width 0x71 = Some 8" by (simp add: skip_width_def)
  have r: "reaches plain_codec ?bmd [] [0x71, 0xEE, 0, 0] 0 init_state init_state"
    by (rule reaches_refl)
  show ?thesis
    using unknown_opcode_fatal [where C = plain_codec and bmd_bytes = ?bmd and displist_bytes = ?dl
        and material_id = 0 and s = init_state and pre = "[0x71]" and cmd = "0xEE"
        and post = "[0, 0]" and ?s1.0 = "init_state\<lparr>offset := 12\<rparr>" and cmd' = "0x71" and w = 8
        and tids = "[]" and data_bytes = "[]" and ?s0.0 = init_state]
    unfolding data tids
    using r lt word pre unk sk
    by (simp add: init_state_def)
qed

end
